theory Spec2Isabelle
  imports Main "HOL-Library.Word" "HOL-Library.List_Lexorder" "HOL-Library.Multiset"
begin

section \<open>Bytes and slice helpers\<close>

text \<open>
  A Go \<^verbatim>\<open>byte\<close> is an unsigned 8-bit integer; a \<^verbatim>\<open>[]byte\<close> and the bytes of a Go
  \<^verbatim>\<open>string\<close> are lists of them. Algorithm names are only ever compared with string
  literals, so they are kept as HOL strings.
\<close>

type_synonym byte = "8 word"

text \<open>
  \<^verbatim>\<open>byteArrayEquals\<close>: the length test, then the \<^verbatim>\<open>range\<close> loop over \<open>a\<close> with its
  index \<open>i\<close>. Reading \<^verbatim>\<open>b[i]\<close> past the end of \<open>b\<close> is a runtime panic in Go; the
  model returns \<open>None\<close> there, so that "never an error" is a statement about the result.
\<close>

fun byteArrayEquals_range :: "nat \<Rightarrow> byte list \<Rightarrow> byte list \<Rightarrow> bool option" where
  "byteArrayEquals_range i [] b = Some True"
| "byteArrayEquals_range i (v # vs) b =
     (if length b \<le> i then None
      else if v \<noteq> b ! i then Some False
      else byteArrayEquals_range (Suc i) vs b)"

definition byteArrayEquals :: "byte list \<Rightarrow> byte list \<Rightarrow> bool option" where
  "byteArrayEquals a b =
     (if length a \<noteq> length b then Some False else byteArrayEquals_range 0 a b)"

fun isByteInSlice :: "byte \<Rightarrow> byte list \<Rightarrow> bool" where
  "isByteInSlice a [] = False"
| "isByteInSlice a (b # list) = (if b = a then True else isByteInSlice a list)"

text \<open>
  \<^verbatim>\<open>strToDistinctByteSlice\<close>: the loop over the input appends every byte that is not yet
  in \<open>res\<close>; the first argument of \<open>distinctLoop\<close> is the part of the input still to be
  read. \<^verbatim>\<open>sort.Sort\<close> with \<^verbatim>\<open>Less(i, j) = a[i] < a[j]\<close> is the standard library's
  sort; on a linear order its result is the one ascending permutation, which
  \<^const>\<open>sort\<close> computes.
\<close>

fun distinctLoop :: "byte list \<Rightarrow> byte list \<Rightarrow> byte list" where
  "distinctLoop [] res = res"
| "distinctLoop (c # s) res =
     (if isByteInSlice c res then distinctLoop s res else distinctLoop s (res @ [c]))"

definition strToDistinctByteSlice :: "byte list \<Rightarrow> byte list" where
  "strToDistinctByteSlice s = sort (distinctLoop s [])"

section \<open>The hasher\<close>

text \<open>
  The \<^verbatim>\<open>Hasher\<close> struct. The Go field \<^verbatim>\<open>try\<close> is called \<open>tries\<close> here; it is a
  \<^verbatim>\<open>uint64\<close> and wraps. \<open>tick\<close> is written only by the progress reporter, a goroutine
  that runs beside the search and never feeds back into it; the reporter is not modelled
  and \<open>tick\<close> is never changed here. The lengths are Go \<^verbatim>\<open>int\<close>s; the program only
  compares them, counts up to \<open>minLength\<close> and down from \<open>minLength - 1\<close>, and
  multiplies the length of a slice by 8, none of which leaves the range of a 64-bit
  integer, so they are mathematical integers here.
\<close>

record Hasher =
  algo :: string
  suffix :: "byte list"
  expected :: "byte list"
  minLength :: int
  maxLength :: int
  allowedKeys :: "byte list"
  reverse :: bool
  buffer :: "byte list"
  tries :: "64 word"
  tick :: "64 word"

definition NewHasher :: Hasher where
  "NewHasher = \<lparr>algo = [], suffix = [], expected = [], minLength = 0, maxLength = 0,
     allowedKeys = [], reverse = False, buffer = [], tries = 0, tick = 0\<rparr>"

definition Length :: "Hasher \<Rightarrow> int \<Rightarrow> Hasher" where
  "Length h len = h\<lparr>minLength := len, maxLength := len\<rparr>"

definition MinLength :: "Hasher \<Rightarrow> int \<Rightarrow> Hasher" where
  "MinLength h len = h\<lparr>minLength := len\<rparr>"

definition MaxLength :: "Hasher \<Rightarrow> int \<Rightarrow> Hasher" where
  "MaxLength h len = h\<lparr>maxLength := len\<rparr>"

definition AllowedKeys :: "Hasher \<Rightarrow> byte list \<Rightarrow> Hasher" where
  "AllowedKeys h s = h\<lparr>allowedKeys := strToDistinctByteSlice s\<rparr>"

definition GetAllowedKeys :: "Hasher \<Rightarrow> byte list" where
  "GetAllowedKeys h = allowedKeys h"

text \<open>The table \<^verbatim>\<open>algos\<close> that \<^verbatim>\<open>verify\<close> consults: algorithm name to digest width in bits.\<close>

definition algos :: "string \<rightharpoonup> int" where
  "algos = map_of
     [(''md5'', 128), (''sha1'', 160), (''sha224'', 224), (''sha256'', 256),
      (''sha384'', 384), (''sha512'', 512), (''sha512-224'', 224), (''sha512-256'', 256),
      (''sha3-224'', 224), (''sha3-256'', 256), (''sha3-384'', 384), (''sha3-512'', 512)]"

text \<open>
  The digest registry of \<^verbatim>\<open>calc.go\<close>, which the hasher does not consult: its table
  \<^verbatim>\<open>algos\<close> of bit widths, called \<open>calcAlgos\<close> here, and the keys of its table
  \<^verbatim>\<open>checksummers\<close> of digest functions.
\<close>

definition calcAlgos :: "string \<rightharpoonup> int" where
  "calcAlgos = map_of
     [(''adler32'', 32), (''blake224'', 224), (''blake256'', 256), (''blake384'', 384),
      (''blake512'', 512), (''blake2b-512'', 512), (''blake2s-256'', 256), (''crc32'', 32),
      (''crc32c'', 32), (''crc32k'', 32), (''gost'', 256), (''md2'', 128), (''md4'', 128),
      (''md5'', 128), (''ripemd160'', 160), (''sha1'', 160), (''sha224'', 224),
      (''sha256'', 256), (''sha384'', 384), (''sha512'', 512), (''sha512-224'', 224),
      (''sha512-256'', 256), (''sha3-224'', 224), (''sha3-256'', 256), (''sha3-384'', 384),
      (''sha3-512'', 512), (''shake128-256'', 256), (''shake256-512'', 512),
      (''siphash-2-4'', 64), (''skein512-256'', 256), (''skein512-512'', 512),
      (''tiger192'', 192), (''whirlpool'', 512)]"

definition checksummerNames :: "string list" where
  "checksummerNames =
     [''adler32'', ''blake224'', ''blake256'', ''blake384'', ''blake512'', ''blake2b-512'',
      ''blake2s-256'', ''crc32'', ''crc32c'', ''crc32k'', ''fnv1-32'', ''fnv1a-32'',
      ''fnv1-64'', ''fnv1a-64'', ''gost'', ''md2'', ''md4'', ''md5'', ''ripemd160'', ''sha1'',
      ''sha224'', ''sha256'', ''sha384'', ''sha512'', ''sha512-224'', ''sha512-256'',
      ''sha3-224'', ''sha3-256'', ''sha3-384'', ''sha3-512'', ''shake128-256'',
      ''shake256-512'', ''siphash-2-4'', ''skein512-256'', ''skein512-512'', ''tiger192'',
      ''whirlpool'']"

text \<open>
  One constructor for each \<^verbatim>\<open>fmt.Errorf\<close> of the hasher, in the order of the source:
  "allowedKeys unset", "minLength unset", "algo unset",
  "expectedHash is wrong size, should be %d bit, is %d", "unknown algo %s" and
  "reverse and random dont mix".
\<close>

datatype error =
    AllowedKeysUnset
  | MinLengthUnset
  | AlgoUnset
  | WrongSize int int
  | UnknownAlgo string
  | ReverseRandomMix

definition verify :: "Hasher \<Rightarrow> error option" where
  "verify h =
     (if length (allowedKeys h) = 0 then Some AllowedKeysUnset
      else if minLength h = 0 then Some MinLengthUnset
      else if length (algo h) = 0 then Some AlgoUnset
      else
        let keyBitSize = int (length (expected h)) * 8;
            expectedBitSize = int (length (expected h)) * 8
        in (case algos (algo h) of
              Some requiredBitSize \<Rightarrow>
                if keyBitSize \<noteq> requiredBitSize
                then Some (WrongSize requiredBitSize expectedBitSize)
                else None
            | None \<Rightarrow> Some (UnknownAlgo (algo h))))"

subsection \<open>Digest comparison\<close>

text \<open>
  The twelve digest functions are library code (\<^verbatim>\<open>crypto/md5\<close>, \<^verbatim>\<open>crypto/sha1\<close>,
  \<^verbatim>\<open>crypto/sha256\<close>, \<^verbatim>\<open>crypto/sha512\<close>, \<^verbatim>\<open>x/crypto/sha3\<close>); the model takes them as
  a parameter, one field for each function \<^verbatim>\<open>equals\<close> calls.
\<close>

record digests =
  md5_Sum :: "byte list \<Rightarrow> byte list"
  sha1_Sum :: "byte list \<Rightarrow> byte list"
  sha256_Sum224 :: "byte list \<Rightarrow> byte list"
  sha256_Sum256 :: "byte list \<Rightarrow> byte list"
  sha512_Sum384 :: "byte list \<Rightarrow> byte list"
  sha512_Sum512 :: "byte list \<Rightarrow> byte list"
  sha512_Sum512_224 :: "byte list \<Rightarrow> byte list"
  sha512_Sum512_256 :: "byte list \<Rightarrow> byte list"
  sha3_Sum224 :: "byte list \<Rightarrow> byte list"
  sha3_Sum256 :: "byte list \<Rightarrow> byte list"
  sha3_Sum384 :: "byte list \<Rightarrow> byte list"
  sha3_Sum512 :: "byte list \<Rightarrow> byte list"

text \<open>
  Modelled from the spec: \<^verbatim>\<open>byte16ArrayEquals\<close>, \<^verbatim>\<open>byte20ArrayEquals\<close>,
  \<^verbatim>\<open>byte28ArrayEquals\<close>, \<^verbatim>\<open>byte32ArrayEquals\<close>, \<^verbatim>\<open>byte48ArrayEquals\<close> and
  \<^verbatim>\<open>byte64ArrayEquals\<close>, which compare a digest (a fixed-size array) with the expected
  slice, are not among the sources. The spec: "Equality requires identical length and
  identical bytes at every index; any length mismatch is an automatic non-match".
\<close>

definition byteNArrayEquals :: "byte list \<Rightarrow> byte list \<Rightarrow> bool" where
  "byteNArrayEquals a b = list_all2 (=) a b"

abbreviation "byte16ArrayEquals \<equiv> byteNArrayEquals"
abbreviation "byte20ArrayEquals \<equiv> byteNArrayEquals"
abbreviation "byte28ArrayEquals \<equiv> byteNArrayEquals"
abbreviation "byte32ArrayEquals \<equiv> byteNArrayEquals"
abbreviation "byte48ArrayEquals \<equiv> byteNArrayEquals"
abbreviation "byte64ArrayEquals \<equiv> byteNArrayEquals"

definition equals :: "digests \<Rightarrow> Hasher \<Rightarrow> bool" where
  "equals d h =
     (if algo h = ''md5'' \<and> byte16ArrayEquals (md5_Sum d (buffer h)) (expected h) then True
      else if algo h = ''sha1'' \<and> byte20ArrayEquals (sha1_Sum d (buffer h)) (expected h) then True
      else if algo h = ''sha224'' \<and> byte28ArrayEquals (sha256_Sum224 d (buffer h)) (expected h) then True
      else if algo h = ''sha256'' \<and> byte32ArrayEquals (sha256_Sum256 d (buffer h)) (expected h) then True
      else if algo h = ''sha384'' \<and> byte48ArrayEquals (sha512_Sum384 d (buffer h)) (expected h) then True
      else if algo h = ''sha512'' \<and> byte64ArrayEquals (sha512_Sum512 d (buffer h)) (expected h) then True
      else if algo h = ''sha512-224'' \<and> byte28ArrayEquals (sha512_Sum512_224 d (buffer h)) (expected h) then True
      else if algo h = ''sha512-256'' \<and> byte32ArrayEquals (sha512_Sum512_256 d (buffer h)) (expected h) then True
      else if algo h = ''sha3-224'' \<and> byte28ArrayEquals (sha3_Sum224 d (buffer h)) (expected h) then True
      else if algo h = ''sha3-256'' \<and> byte32ArrayEquals (sha3_Sum256 d (buffer h)) (expected h) then True
      else if algo h = ''sha3-384'' \<and> byte48ArrayEquals (sha3_Sum384 d (buffer h)) (expected h) then True
      else if algo h = ''sha3-512'' \<and> byte64ArrayEquals (sha3_Sum512 d (buffer h)) (expected h) then True
      else False)"

text \<open>
  The digest of an algorithm, by name: the function that \<^verbatim>\<open>checksummers\<close> in
  \<^verbatim>\<open>calc.go\<close> holds for each of the twelve names of the hasher's \<open>algos\<close>
  (\<^verbatim>\<open>md5Sum\<close> is \<^verbatim>\<open>md5.Sum\<close>, \<^verbatim>\<open>sha224Sum\<close> is \<^verbatim>\<open>sha256.Sum224\<close>, and so on), and its
  value on an input. The other entries of \<^verbatim>\<open>checksummers\<close> call libraries the hasher
  never uses.
\<close>

definition digestFor :: "digests \<Rightarrow> string \<rightharpoonup> (byte list \<Rightarrow> byte list)" where
  "digestFor d = map_of
     [(''md5'', md5_Sum d), (''sha1'', sha1_Sum d), (''sha224'', sha256_Sum224 d),
      (''sha256'', sha256_Sum256 d), (''sha384'', sha512_Sum384 d),
      (''sha512'', sha512_Sum512 d), (''sha512-224'', sha512_Sum512_224 d),
      (''sha512-256'', sha512_Sum512_256 d), (''sha3-224'', sha3_Sum224 d),
      (''sha3-256'', sha3_Sum256 d), (''sha3-384'', sha3_Sum384 d),
      (''sha3-512'', sha3_Sum512 d)]"


subsection \<open>Successor and predecessor in the alphabet\<close>

text \<open>
  \<^verbatim>\<open>nextValueFor\<close> and \<^verbatim>\<open>prevValueFor\<close> each have a \<^verbatim>\<open>return\<close> inside the
  \<^verbatim>\<open>range\<close> loop and one after it. The loop functions say which one was taken:
  \<open>InLoop x\<close> for the return inside the loop, \<open>AfterLoop x\<close> for the fallback after it.
  The byte \<^verbatim>\<open>'0'\<close> is \<open>0x30\<close>.
\<close>

datatype scan = InLoop byte | AfterLoop byte

fun scanValue :: "scan \<Rightarrow> byte" where
  "scanValue (InLoop x) = x"
| "scanValue (AfterLoop x) = x"

fun nextValueFor_range :: "bool \<Rightarrow> byte \<Rightarrow> byte list \<Rightarrow> scan" where
  "nextValueFor_range next b [] = AfterLoop 0x30"
| "nextValueFor_range next b (x # xs) =
     (if next = True then InLoop x
      else if x = b then nextValueFor_range True b xs
      else nextValueFor_range next b xs)"

definition nextValueFor :: "Hasher \<Rightarrow> byte \<Rightarrow> byte" where
  "nextValueFor h b = scanValue (nextValueFor_range False b (allowedKeys h))"

fun prevValueFor_range :: "byte \<Rightarrow> byte \<Rightarrow> byte list \<Rightarrow> scan" where
  "prevValueFor_range prev b [] = AfterLoop prev"
| "prevValueFor_range prev b (x # xs) =
     (if x = b then InLoop prev else prevValueFor_range x b xs)"

text \<open>
  \<^verbatim>\<open>prevValueFor\<close> reads \<^verbatim>\<open>allowedKeys[0]\<close> first, as \<^verbatim>\<open>FindSequential\<close> and
  \<^verbatim>\<open>FindRandom\<close> do; all of these reads come after \<^verbatim>\<open>verify\<close> has rejected the empty
  alphabet.
\<close>

definition prevValueFor :: "Hasher \<Rightarrow> byte \<Rightarrow> byte" where
  "prevValueFor h b = scanValue (prevValueFor_range (allowedKeys h ! 0) b (allowedKeys h))"

subsection \<open>Sequential search\<close>

text \<open>
  The loop "update mutation" of \<^verbatim>\<open>FindSequential\<close>:
  \<^verbatim>\<open>for roller := h.minLength - 1; roller >= 0; roller--\<close>. The last argument of
  \<open>rollerLoop\<close> is \<open>roller + 1\<close>, the number of positions not yet visited, so that \<open>0\<close>
  is the exit of the loop and \<open>Suc roller\<close> one round at position \<open>roller\<close>;
  \<^verbatim>\<open>continue\<close> is the recursive call and \<^verbatim>\<open>break\<close> returns. The positions it reads
  and writes are below \<open>minLength\<close>, inside the buffer that the initialisation has made
  with \<open>minLength\<close> bytes before the suffix (lemma \<open>seqState_shape\<close> below), so no
  index is out of range.
\<close>

fun rollerLoop :: "byte \<Rightarrow> byte \<Rightarrow> Hasher \<Rightarrow> nat \<Rightarrow> Hasher" where
  "rollerLoop firstAllowedKey lastAllowedKey h 0 = h"
| "rollerLoop firstAllowedKey lastAllowedKey h (Suc roller) =
     (if reverse h then
        (if buffer h ! roller = firstAllowedKey
         then rollerLoop firstAllowedKey lastAllowedKey
                (h\<lparr>buffer := (buffer h)[roller := lastAllowedKey]\<rparr>) roller
         else h\<lparr>buffer := (buffer h)[roller := prevValueFor h (buffer h ! roller)]\<rparr>)
      else
        (if buffer h ! roller = lastAllowedKey
         then rollerLoop firstAllowedKey lastAllowedKey
                (h\<lparr>buffer := (buffer h)[roller := firstAllowedKey]\<rparr>) roller
         else h\<lparr>buffer := (buffer h)[roller := nextValueFor h (buffer h ! roller)]\<rparr>))"

text \<open>
  The same loop, returning whether the one call of \<^verbatim>\<open>prevValueFor\<close> or
  \<^verbatim>\<open>nextValueFor\<close> it makes (if it makes one) leaves through the fallback return.
\<close>

fun isAfterLoop :: "scan \<Rightarrow> bool" where
  "isAfterLoop (InLoop x) = False"
| "isAfterLoop (AfterLoop x) = True"

fun rollerFallback :: "byte \<Rightarrow> byte \<Rightarrow> Hasher \<Rightarrow> nat \<Rightarrow> bool" where
  "rollerFallback firstAllowedKey lastAllowedKey h 0 = False"
| "rollerFallback firstAllowedKey lastAllowedKey h (Suc roller) =
     (if reverse h then
        (if buffer h ! roller = firstAllowedKey
         then rollerFallback firstAllowedKey lastAllowedKey
                (h\<lparr>buffer := (buffer h)[roller := lastAllowedKey]\<rparr>) roller
         else isAfterLoop
                (prevValueFor_range (allowedKeys h ! 0) (buffer h ! roller) (allowedKeys h)))
      else
        (if buffer h ! roller = lastAllowedKey
         then rollerFallback firstAllowedKey lastAllowedKey
                (h\<lparr>buffer := (buffer h)[roller := firstAllowedKey]\<rparr>) roller
         else isAfterLoop (nextValueFor_range False (buffer h ! roller) (allowedKeys h))))"

text \<open>
  The part of \<^verbatim>\<open>FindSequential\<close> between \<^verbatim>\<open>verify\<close> and the search loop. \<open>seqFill\<close>
  is \<^verbatim>\<open>make([]byte, h.minLength)\<close> (zero bytes) and the loop "create initial mutation"
  over \<open>x = 0, \<dots>, minLength - 1\<close>; \<open>seqInit\<close> is that and the \<^verbatim>\<open>append\<close> of the
  suffix.
\<close>

definition seqFill :: "Hasher \<Rightarrow> Hasher" where
  "seqFill h =
     (let h1 = h\<lparr>buffer := replicate (nat (minLength h)) 0\<rparr>;
          firstAllowedKey = allowedKeys h1 ! 0;
          lastAllowedKey = allowedKeys h1 ! (length (allowedKeys h1) - 1)
      in fold (\<lambda>x g. if reverse g
                        then g\<lparr>buffer := (buffer g)[x := lastAllowedKey]\<rparr>
                        else g\<lparr>buffer := (buffer g)[x := firstAllowedKey]\<rparr>)
              [0 ..< nat (minLength h1)] h1)"

definition seqInit :: "Hasher \<Rightarrow> Hasher" where
  "seqInit h = (let h2 = seqFill h in h2\<lparr>buffer := buffer h2 @ suffix h2\<rparr>)"

text \<open>One round of the search loop after a failed comparison: the roller loop, then \<^verbatim>\<open>h.try++\<close>.\<close>

definition seqStep :: "Hasher \<Rightarrow> Hasher" where
  "seqStep h =
     (let firstAllowedKey = allowedKeys h ! 0;
          lastAllowedKey = allowedKeys h ! (length (allowedKeys h) - 1);
          h' = rollerLoop firstAllowedKey lastAllowedKey h (nat (minLength h))
      in h'\<lparr>tries := tries h' + 1\<rparr>)"

text \<open>The search loop has no exit but a match: \<open>None\<close> is the run that never returns.\<close>

partial_function (option) seqLoop :: "digests \<Rightarrow> Hasher \<Rightarrow> Hasher option" where
  "seqLoop d h = (if equals d h then Some h else seqLoop d (seqStep h))"

text \<open>
  What a call of \<^verbatim>\<open>FindSequential\<close> or \<^verbatim>\<open>FindRandom\<close> does when it ends: it returns
  its pair \<^verbatim>\<open>(string, error)\<close>, or it panics. \<^verbatim>\<open>make\<close> panics ("makeslice: len out of
  range") on a negative length, and on a length above the bound \<^verbatim>\<open>maxAlloc\<close> that the Go
  runtime puts on one allocation, \<open>2 ^ 48\<close> bytes on 64-bit Linux; \<^verbatim>\<open>verify\<close> lets both
  through. \<^verbatim>\<open>append\<close> panics ("growslice: len out of range") when the slice it has to
  produce is longer than that bound; the buffer is made and filled by then. Below the
  bound, an allocation that the machine cannot serve ends the process with a fatal error;
  where that begins depends on the machine and is left out.
\<close>

datatype findResult = Returned "byte list" "error option" | Panicked

definition maxAlloc :: int where
  "maxAlloc = 2 ^ 48"

definition FindSequential :: "digests \<Rightarrow> Hasher \<Rightarrow> (findResult \<times> Hasher) option" where
  "FindSequential d h =
     (case verify h of
        Some err \<Rightarrow> Some (Returned [] (Some err), h)
      | None \<Rightarrow>
          if minLength h < 0 \<or> maxAlloc < minLength h then Some (Panicked, h)
          else if maxAlloc < minLength h + int (length (suffix h))
          then Some (Panicked, seqFill h)
          else (case seqLoop d (seqInit h) of
                  None \<Rightarrow> None
                | Some h' \<Rightarrow> Some (Returned (buffer h') None, h')))"

subsection \<open>Random search\<close>

text \<open>
  \<^verbatim>\<open>rand.Intn\<close> draws from the global source of \<^verbatim>\<open>math/rand\<close>. The source is a
  parameter \<open>rnd\<close>: \<open>rnd t n\<close> is what the call number \<open>t\<close> returns when asked for
  \<^verbatim>\<open>Intn(n)\<close>. The record \<open>env\<close> counts the calls of \<^verbatim>\<open>rand.Intn\<close> and the calls of
  \<^verbatim>\<open>equals\<close> made so far; no digest is computed outside \<^verbatim>\<open>equals\<close>.
\<close>

record env =
  intnCalls :: nat
  equalsCalls :: nat

definition rndFill :: "Hasher \<Rightarrow> Hasher" where
  "rndFill h =
     (let h1 = h\<lparr>buffer := replicate (nat (minLength h)) 0\<rparr>;
          firstAllowedKey = allowedKeys h1 ! 0
      in fold (\<lambda>x g. g\<lparr>buffer := (buffer g)[x := firstAllowedKey]\<rparr>)
              [0 ..< nat (minLength h1)] h1)"

definition rndInit :: "Hasher \<Rightarrow> Hasher" where
  "rndInit h = (let h2 = rndFill h in h2\<lparr>buffer := buffer h2 @ suffix h2\<rparr>)"

text \<open>
  One round of the loop whose comparison failed: that call of \<^verbatim>\<open>equals\<close> is counted,
  every prefix position gets a fresh draw, then \<^verbatim>\<open>h.try++\<close>.
\<close>

definition rndStep :: "(nat \<Rightarrow> nat \<Rightarrow> nat) \<Rightarrow> Hasher \<times> env \<Rightarrow> Hasher \<times> env" where
  "rndStep rnd s =
     (let allowedKeysLen = length (allowedKeys (fst s));
          (h', e') = fold (\<lambda>roller (g, e).
                        (g\<lparr>buffer := (buffer g)[roller := allowedKeys g ! rnd (intnCalls e) allowedKeysLen]\<rparr>,
                         e\<lparr>intnCalls := intnCalls e + 1\<rparr>))
                      [0 ..< nat (minLength (fst s))]
                      (fst s, (snd s)\<lparr>equalsCalls := equalsCalls (snd s) + 1\<rparr>)
      in (h'\<lparr>tries := tries h' + 1\<rparr>, e'))"

partial_function (option) rndLoop ::
    "digests \<Rightarrow> (nat \<Rightarrow> nat \<Rightarrow> nat) \<Rightarrow> Hasher \<times> env \<Rightarrow> (Hasher \<times> env) option" where
  "rndLoop d rnd s =
     (if equals d (fst s) then Some (fst s, (snd s)\<lparr>equalsCalls := equalsCalls (snd s) + 1\<rparr>)
      else rndLoop d rnd (rndStep rnd s))"

definition FindRandom ::
    "digests \<Rightarrow> (nat \<Rightarrow> nat \<Rightarrow> nat) \<Rightarrow> Hasher \<times> env \<Rightarrow> (findResult \<times> Hasher \<times> env) option" where
  "FindRandom d rnd s =
     (if reverse (fst s) then Some (Returned [] (Some ReverseRandomMix), s)
      else (case verify (fst s) of
              Some err \<Rightarrow> Some (Returned [] (Some err), s)
            | None \<Rightarrow>
                if minLength (fst s) < 0 \<or> maxAlloc < minLength (fst s) then Some (Panicked, s)
                else if maxAlloc < minLength (fst s) + int (length (suffix (fst s)))
                then Some (Panicked, rndFill (fst s), snd s)
                else (case rndLoop d rnd (rndInit (fst s), snd s) of
                        None \<Rightarrow> None
                      | Some s' \<Rightarrow> Some (Returned (buffer (fst s')) None, s'))))"

declare seqLoop.simps [code]
declare rndLoop.simps [code]

subsection \<open>The runs of the two searches\<close>

text \<open>
  The state of the sequential search at the head of its loop after \<open>i\<close> rounds, the
  prefix it is about to test there, and the same for the random search.
\<close>

definition seqState :: "Hasher \<Rightarrow> nat \<Rightarrow> Hasher" where
  "seqState h i = (seqStep ^^ i) (seqInit h)"

definition seqPrefix :: "Hasher \<Rightarrow> nat \<Rightarrow> byte list" where
  "seqPrefix h i = take (nat (minLength h)) (buffer (seqState h i))"

definition rndState :: "(nat \<Rightarrow> nat \<Rightarrow> nat) \<Rightarrow> Hasher \<times> env \<Rightarrow> nat \<Rightarrow> Hasher \<times> env" where
  "rndState rnd s i = (rndStep rnd ^^ i) (rndInit (fst s), snd s)"

subsection \<open>Concrete configurations\<close>

text \<open>The alphabet of "mota" with length 5 and SHA-1, and variants of it.\<close>

definition cfgMota :: Hasher where
  "cfgMota = (AllowedKeys (Length NewHasher 5) [0x6d, 0x6f, 0x74, 0x61])
     \<lparr>algo := ''sha1'', expected := replicate 20 0\<rparr>"

text \<open>
  Stand-ins for the library's digest functions, for running the model: \<open>padTo n\<close> cuts
  or zero-pads its input to \<open>n\<close> bytes, the width of the digest it stands for.
\<close>

definition padTo :: "nat \<Rightarrow> byte list \<Rightarrow> byte list" where
  "padTo n b = take n (b @ replicate n 0)"

definition padDigests :: digests where
  "padDigests = \<lparr>md5_Sum = padTo 16, sha1_Sum = padTo 20, sha256_Sum224 = padTo 28,
     sha256_Sum256 = padTo 32, sha512_Sum384 = padTo 48, sha512_Sum512 = padTo 64,
     sha512_Sum512_224 = padTo 28, sha512_Sum512_256 = padTo 32, sha3_Sum224 = padTo 28,
     sha3_Sum256 = padTo 32, sha3_Sum384 = padTo 48, sha3_Sum512 = padTo 64\<rparr>"

text \<open>The same with the digest of "motom" as the target, under the stand-in for SHA-1.\<close>

definition cfgMotom :: Hasher where
  "cfgMotom = cfgMota\<lparr>expected := padTo 20 [0x6d, 0x6f, 0x74, 0x6f, 0x6d]\<rparr>"


definition cfgWhirlpool :: Hasher where
  "cfgWhirlpool = cfgMota\<lparr>algo := ''whirlpool'', expected := replicate 64 0\<rparr>"

definition cfgRot13 :: Hasher where
  "cfgRot13 = cfgMota\<lparr>algo := ''rot13''\<rparr>"


definition cfgNegative :: Hasher where
  "cfgNegative = MinLength cfgMota (- 1)"

definition cfgSuffix :: Hasher where
  "cfgSuffix = (Length cfgMota 2)\<lparr>suffix := [0x2e, 0x6f]\<rparr>"

definition cfgNoKeys :: Hasher where
  "cfgNoKeys = (Length NewHasher 0)\<lparr>algo := ''rot13''\<rparr>"

subsection \<open>Positions and ranks, for the proofs about the enumeration order\<close>

text \<open>
  Not part of the program: \<open>keyIndex A b\<close> is the position of the byte \<open>b\<close> in the
  alphabet \<open>A\<close>, and \<open>rank A xs\<close> the number that the prefix \<open>xs\<close> denotes when its
  bytes are read as digits in base \<open>length A\<close>, the most significant first.
\<close>

fun keyIndex :: "byte list \<Rightarrow> byte \<Rightarrow> nat" where
  "keyIndex [] b = 0"
| "keyIndex (x # xs) b = (if x = b then 0 else Suc (keyIndex xs b))"

definition rank :: "byte list \<Rightarrow> byte list \<Rightarrow> nat" where
  "rank A xs = foldl (\<lambda>acc x. acc * length A + keyIndex A x) 0 xs"

section \<open>Properties of the helpers\<close>

lemma byteArrayEquals_range_eq:
  "i + length vs = length b \<Longrightarrow> byteArrayEquals_range i vs b = Some (vs = drop i b)"
proof (induction vs arbitrary: i)
  case Nil
  then show ?case by simp
next
  case (Cons v vs)
  from Cons.prems have lt: "i < length b" by simp
  then have d: "drop i b = b ! i # drop (Suc i) b"
    by (simp add: Cons_nth_drop_Suc)
  from Cons.prems have "Suc i + length vs = length b" by simp
  then have "byteArrayEquals_range (Suc i) vs b = Some (vs = drop (Suc i) b)"
    by (rule Cons.IH)
  with lt d show ?case by auto
qed

lemma byteArrayEquals_eq: "byteArrayEquals a b = Some (a = b)"
proof (cases "length a = length b")
  case True
  then show ?thesis
    using byteArrayEquals_range_eq [of 0 a b] by (simp add: byteArrayEquals_def)
next
  case False
  then show ?thesis by (auto simp: byteArrayEquals_def)
qed

lemma isByteInSlice_set: "isByteInSlice a list \<longleftrightarrow> a \<in> set list"
  by (induction list) auto

lemma distinctLoop_set: "set (distinctLoop s res) = set s \<union> set res"
  by (induction s arbitrary: res) (auto simp: isByteInSlice_set)

lemma distinctLoop_distinct: "distinct res \<Longrightarrow> distinct (distinctLoop s res)"
  by (induction s arbitrary: res) (auto simp: isByteInSlice_set)

lemma strToDistinctByteSlice_canonical:
  "strToDistinctByteSlice s = sorted_list_of_set (set s)"
proof -
  have "distinct (distinctLoop s [])" by (simp add: distinctLoop_distinct)
  then have "sort (distinctLoop s []) = sorted_list_of_set (set (distinctLoop s []))"
    by (simp add: sorted_list_of_set_sort_remdups distinct_remdups_id)
  then show ?thesis by (simp add: strToDistinctByteSlice_def distinctLoop_set)
qed

section \<open>The alphabet scans and the shape of the buffer\<close>

lemma nextValueFor_range_mem:
  "b \<in> set A \<Longrightarrow> b \<noteq> last A \<Longrightarrow> \<exists>x\<in>set A. nextValueFor_range False b A = InLoop x"
proof (induction A)
  case Nil
  then show ?case by simp
next
  case (Cons x xs)
  show ?case
  proof (cases "x = b")
    case True
    with Cons.prems obtain y ys where "xs = y # ys" by (cases xs) auto
    with True show ?thesis by simp
  next
    case False
    with Cons.prems have "b \<in> set xs" "b \<noteq> last xs" by (auto split: if_splits)
    with Cons.IH False show ?thesis by auto
  qed
qed

lemma nextValueFor_range_nth:
  "distinct A \<Longrightarrow> Suc i < length A \<Longrightarrow> nextValueFor_range False (A ! i) A = InLoop (A ! Suc i)"
proof (induction A arbitrary: i)
  case Nil
  then show ?case by simp
next
  case (Cons x xs)
  show ?case
  proof (cases i)
    case 0
    with Cons.prems obtain y ys where "xs = y # ys" by (cases xs) auto
    with 0 show ?thesis by simp
  next
    case (Suc j)
    with Cons.prems have "xs ! j \<in> set xs" "x \<notin> set xs" by auto
    then have "x \<noteq> xs ! j" by auto
    with Cons Suc show ?thesis by simp
  qed
qed

lemma prevValueFor_range_mem:
  "b \<in> set A \<Longrightarrow> \<exists>x\<in>insert p (set A). prevValueFor_range p b A = InLoop x"
  by (induction A arbitrary: p) auto

lemma prevValueFor_range_nth:
  "distinct A \<Longrightarrow> i < length A \<Longrightarrow>
     prevValueFor_range p (A ! i) A = InLoop (if i = 0 then p else A ! (i - 1))"
proof (induction A arbitrary: i p)
  case Nil
  then show ?case by simp
next
  case (Cons x xs)
  show ?case
  proof (cases i)
    case 0
    then show ?thesis by simp
  next
    case (Suc j)
    with Cons.prems have "xs ! j \<in> set xs" "x \<notin> set xs" by auto
    then have "x \<noteq> xs ! j" by auto
    with Cons Suc show ?thesis by (cases j) auto
  qed
qed

lemma nextValueFor_mem:
  "b \<in> set (allowedKeys h) \<Longrightarrow> b \<noteq> last (allowedKeys h) \<Longrightarrow> nextValueFor h b \<in> set (allowedKeys h)"
  using nextValueFor_range_mem [of b "allowedKeys h"] by (auto simp: nextValueFor_def)

lemma prevValueFor_mem:
  "b \<in> set (allowedKeys h) \<Longrightarrow> prevValueFor h b \<in> set (allowedKeys h)"
  using prevValueFor_range_mem [of b "allowedKeys h" "allowedKeys h ! 0"]
  by (cases "allowedKeys h") (auto simp: prevValueFor_def)

text \<open>The roller loop keeps the shape of the buffer.\<close>

lemma rollerLoop_shape:
  assumes "allowedKeys h \<noteq> []" "c \<le> length (buffer h)"
    and "\<forall>j<c. buffer h ! j \<in> set (allowedKeys h)"
  shows "rollerLoop (allowedKeys h ! 0) (last (allowedKeys h)) h c
           = h\<lparr>buffer := buffer (rollerLoop (allowedKeys h ! 0) (last (allowedKeys h)) h c)\<rparr>
       \<and> length (buffer (rollerLoop (allowedKeys h ! 0) (last (allowedKeys h)) h c)) = length (buffer h)
       \<and> (\<forall>j\<ge>c. buffer (rollerLoop (allowedKeys h ! 0) (last (allowedKeys h)) h c) ! j = buffer h ! j)
       \<and> (\<forall>j<c. buffer (rollerLoop (allowedKeys h ! 0) (last (allowedKeys h)) h c) ! j \<in> set (allowedKeys h))"
  using assms
proof (induction c arbitrary: h)
  case 0
  then show ?case by simp
next
  case (Suc c)
  let ?A = "allowedKeys h"
  let ?B = "buffer h"
  from Suc.prems have c: "c < length ?B" and x: "?B ! c \<in> set ?A"
    and below: "\<forall>j<c. ?B ! j \<in> set ?A" by auto
  from Suc.prems have F: "?A ! 0 \<in> set ?A" and L: "last ?A \<in> set ?A" by auto
  show ?case
  proof (cases "buffer h ! c = (if reverse h then ?A ! 0 else last ?A)")
    case wrap: True
    define v where "v = (if reverse h then last ?A else ?A ! 0)"
    define h1 where "h1 = h\<lparr>buffer := ?B[c := v]\<rparr>"
    define R where "R = rollerLoop (?A ! 0) (last ?A) h1 c"
    have v: "v \<in> set ?A" using F L by (simp add: v_def)
    have h1: "allowedKeys h1 = ?A" "buffer h1 = ?B[c := v]"
      by (simp_all add: h1_def)
    have "allowedKeys h1 \<noteq> []" "c \<le> length (buffer h1)"
      "\<forall>j<c. buffer h1 ! j \<in> set (allowedKeys h1)"
      using Suc.prems c below by (auto simp: h1)
    from Suc.IH [OF this]
    have R1: "R = h1\<lparr>buffer := buffer R\<rparr>"
      and R2: "length (buffer R) = length ?B"
      and R3: "\<forall>j\<ge>c. buffer R ! j = ?B[c := v] ! j"
      and R4: "\<forall>j<c. buffer R ! j \<in> set ?A"
      by (simp_all add: h1 R_def)
    have step: "rollerLoop (?A ! 0) (last ?A) h (Suc c) = R"
      using wrap by (auto simp: R_def h1_def v_def)
    have "R = h\<lparr>buffer := buffer R\<rparr>"
      using R1 by (simp add: h1_def)
    moreover have "\<forall>j\<ge>Suc c. buffer R ! j = ?B ! j"
      using R3 by auto
    moreover have "\<forall>j<Suc c. buffer R ! j \<in> set ?A"
      using R3 R4 v c by (auto simp: less_Suc_eq)
    ultimately show ?thesis
      using R2 unfolding step by simp
  next
    case False
    let ?w = "if reverse h then prevValueFor h (?B ! c) else nextValueFor h (?B ! c)"
    have w: "?w \<in> set ?A"
      using False x by (auto simp: prevValueFor_mem nextValueFor_mem)
    have step: "rollerLoop (?A ! 0) (last ?A) h (Suc c) = h\<lparr>buffer := ?B[c := ?w]\<rparr>"
      using False by auto
    show ?thesis
      unfolding step using w c below by (auto simp: less_Suc_eq nth_list_update)
  qed
qed


lemma fill_fold:
  "m \<le> length (buffer g) \<Longrightarrow>
     fold (\<lambda>x g. if reverse g then g\<lparr>buffer := (buffer g)[x := l]\<rparr>
                   else g\<lparr>buffer := (buffer g)[x := f]\<rparr>) [0 ..< m] g
       = g\<lparr>buffer := replicate m (if reverse g then l else f) @ drop m (buffer g)\<rparr>"
proof (induction m)
  case 0
  then show ?case by simp
next
  case (Suc m)
  then have m: "m < length (buffer g)" by simp
  have upd: "(replicate m v @ drop m (buffer g))[m := v] = replicate (Suc m) v @ drop (Suc m) (buffer g)" for v
    using m by (simp add: list_update_append Cons_nth_drop_Suc [symmetric] replicate_append_same)
  from Suc m show ?case
    by (simp add: upd del: replicate_Suc)
qed

lemma fill_fold_plain:
  "m \<le> length (buffer g) \<Longrightarrow>
     fold (\<lambda>x g. g\<lparr>buffer := (buffer g)[x := f]\<rparr>) [0 ..< m] g
       = g\<lparr>buffer := replicate m f @ drop m (buffer g)\<rparr>"
  using fill_fold [of m g f f] by simp

lemma seqInit_eq:
  "allowedKeys h \<noteq> [] \<Longrightarrow>
   seqInit h = h\<lparr>buffer := replicate (nat (minLength h))
       (if reverse h then last (allowedKeys h) else allowedKeys h ! 0) @ suffix h\<rparr>"
  by (simp add: seqInit_def seqFill_def Let_def fill_fold last_conv_nth)

lemma seqStep_shape:
  assumes "allowedKeys s \<noteq> []" "nat (minLength s) \<le> length (buffer s)"
    and "\<forall>j<nat (minLength s). buffer s ! j \<in> set (allowedKeys s)"
  shows "seqStep s = s\<lparr>buffer := buffer (seqStep s), tries := tries s + 1\<rparr>"
    and "length (buffer (seqStep s)) = length (buffer s)"
    and "drop (nat (minLength s)) (buffer (seqStep s)) = drop (nat (minLength s)) (buffer s)"
    and "\<forall>j<nat (minLength s). buffer (seqStep s) ! j \<in> set (allowedKeys s)"
proof -
  define R where "R = rollerLoop (allowedKeys s ! 0) (last (allowedKeys s)) s (nat (minLength s))"
  have step: "seqStep s = R\<lparr>tries := tries R + 1\<rparr>"
    using assms(1) by (simp add: seqStep_def Let_def R_def last_conv_nth)
  from rollerLoop_shape [OF assms]
  have R1: "R = s\<lparr>buffer := buffer R\<rparr>"
    and R2: "length (buffer R) = length (buffer s)"
    and R3: "\<forall>j\<ge>nat (minLength s). buffer R ! j = buffer s ! j"
    and R4: "\<forall>j<nat (minLength s). buffer R ! j \<in> set (allowedKeys s)"
    by (simp_all add: R_def)
  have t: "tries R = tries s"
    by (subst R1) simp
  show "seqStep s = s\<lparr>buffer := buffer (seqStep s), tries := tries s + 1\<rparr>"
    unfolding step using t by (subst R1) simp
  show "length (buffer (seqStep s)) = length (buffer s)"
    using R2 by (simp add: step)
  show "drop (nat (minLength s)) (buffer (seqStep s)) = drop (nat (minLength s)) (buffer s)"
    using R2 R3 by (auto simp: step intro!: nth_equalityI)
  show "\<forall>j<nat (minLength s). buffer (seqStep s) ! j \<in> set (allowedKeys s)"
    using R4 by (simp add: step)
qed

lemma config_fields:
  "s = h\<lparr>buffer := b, tries := t\<rparr> \<Longrightarrow>
     algo s = algo h \<and> suffix s = suffix h \<and> expected s = expected h
     \<and> minLength s = minLength h \<and> maxLength s = maxLength h
     \<and> allowedKeys s = allowedKeys h \<and> reverse s = reverse h \<and> tick s = tick h"
  by simp

lemma config_update:
  "s = h\<lparr>buffer := b, tries := t\<rparr> \<Longrightarrow>
     s\<lparr>buffer := b', tries := t'\<rparr> = h\<lparr>buffer := b', tries := t'\<rparr>"
  by simp

lemma seqState_Suc: "seqState h (Suc i) = seqStep (seqState h i)"
  by (simp add: seqState_def)

lemma seqState_shape:
  assumes "allowedKeys h \<noteq> []"
  shows "seqState h i = h\<lparr>buffer := buffer (seqState h i), tries := tries h + of_nat i\<rparr>
       \<and> length (buffer (seqState h i)) = nat (minLength h) + length (suffix h)
       \<and> drop (nat (minLength h)) (buffer (seqState h i)) = suffix h
       \<and> (\<forall>j<nat (minLength h). buffer (seqState h i) ! j \<in> set (allowedKeys h))"
proof (induction i)
  case 0
  from assms have "allowedKeys h ! 0 \<in> set (allowedKeys h)" "last (allowedKeys h) \<in> set (allowedKeys h)"
    by auto
  then show ?case
    using assms by (auto simp: seqState_def seqInit_eq nth_append)
next
  case (Suc i)
  define s where "s = seqState h i"
  from Suc have s1: "s = h\<lparr>buffer := buffer s, tries := tries h + of_nat i\<rparr>"
    and s2: "length (buffer s) = nat (minLength h) + length (suffix h)"
    and s3: "drop (nat (minLength h)) (buffer s) = suffix h"
    and s4: "\<forall>j<nat (minLength h). buffer s ! j \<in> set (allowedKeys h)"
    by (simp_all add: s_def)
  from config_fields [OF s1] have cf: "allowedKeys s = allowedKeys h" "minLength s = minLength h"
    by simp_all
  have t: "tries s = tries h + of_nat i" by (subst s1) simp
  have pre: "allowedKeys s \<noteq> []" "nat (minLength s) \<le> length (buffer s)"
    "\<forall>j<nat (minLength s). buffer s ! j \<in> set (allowedKeys s)"
    using assms s2 s4 by (simp_all add: cf)
  note st = seqStep_shape [OF pre]
  have "seqStep s = h\<lparr>buffer := buffer (seqStep s), tries := tries h + of_nat (Suc i)\<rparr>"
    using st(1) config_update [OF s1, where b' = "buffer (seqStep s)" and t' = "tries s + 1"]
    by (simp add: t ac_simps)
  then show ?case
    using st(2-4) s2 s3 by (simp add: seqState_Suc s_def [symmetric] cf)
qed

lemma rndInit_eq:
  "rndInit h = h\<lparr>buffer := replicate (nat (minLength h)) (allowedKeys h ! 0) @ suffix h\<rparr>"
  by (simp add: rndInit_def rndFill_def Let_def fill_fold_plain)

lemma draw_fold:
  assumes "m \<le> length (buffer g)"
  shows "fold (\<lambda>roller (g, e).
             (g\<lparr>buffer := (buffer g)[roller := allowedKeys g ! rnd (intnCalls e) l]\<rparr>,
              e\<lparr>intnCalls := intnCalls e + 1\<rparr>)) [0 ..< m] (g, e)
       = (g\<lparr>buffer := map (\<lambda>j. allowedKeys g ! rnd (intnCalls e + j) l) [0 ..< m]
                          @ drop m (buffer g)\<rparr>,
          e\<lparr>intnCalls := intnCalls e + m\<rparr>)"
  using assms
proof (induction m)
  case 0
  then show ?case by simp
next
  case (Suc m)
  then have m: "m < length (buffer g)" by simp
  have upd: "(xs @ drop m (buffer g))[m := v] = xs @ [v] @ drop (Suc m) (buffer g)"
    if "length xs = m" for xs v
    using m that by (simp add: list_update_append Cons_nth_drop_Suc [symmetric])
  from Suc m show ?case
    by (simp add: upd)
qed

lemma rndStep_eq:
  assumes "nat (minLength h) \<le> length (buffer h)"
  shows "rndStep rnd (h, e)
       = (h\<lparr>buffer := map (\<lambda>j. allowedKeys h ! rnd (intnCalls e + j) (length (allowedKeys h)))
                           [0 ..< nat (minLength h)] @ drop (nat (minLength h)) (buffer h),
             tries := tries h + 1\<rparr>,
          e\<lparr>intnCalls := intnCalls e + nat (minLength h), equalsCalls := equalsCalls e + 1\<rparr>)"
  unfolding rndStep_def Let_def fst_conv snd_conv draw_fold [OF assms]
  by simp

lemma rndState_Suc: "rndState rnd s (Suc i) = rndStep rnd (rndState rnd s i)"
  by (simp add: rndState_def)

lemma rndState_shape:
  assumes "allowedKeys h \<noteq> []" and "\<forall>t l. 0 < l \<longrightarrow> rnd t l < l"
  shows "fst (rndState rnd (h, e) i)
           = h\<lparr>buffer := buffer (fst (rndState rnd (h, e) i)), tries := tries h + of_nat i\<rparr>
       \<and> snd (rndState rnd (h, e) i)
           = e\<lparr>intnCalls := intnCalls e + i * nat (minLength h), equalsCalls := equalsCalls e + i\<rparr>
       \<and> length (buffer (fst (rndState rnd (h, e) i))) = nat (minLength h) + length (suffix h)
       \<and> drop (nat (minLength h)) (buffer (fst (rndState rnd (h, e) i))) = suffix h
       \<and> (\<forall>j<nat (minLength h). buffer (fst (rndState rnd (h, e) i)) ! j \<in> set (allowedKeys h))"
proof (induction i)
  case 0
  from assms have "allowedKeys h ! 0 \<in> set (allowedKeys h)" by auto
  then show ?case
    by (auto simp: rndState_def rndInit_eq nth_append)
next
  case (Suc i)
  obtain s e' where se: "rndState rnd (h, e) i = (s, e')" by (cases "rndState rnd (h, e) i")
  from Suc have s1: "s = h\<lparr>buffer := buffer s, tries := tries h + of_nat i\<rparr>"
    and e1: "e' = e\<lparr>intnCalls := intnCalls e + i * nat (minLength h), equalsCalls := equalsCalls e + i\<rparr>"
    and s2: "length (buffer s) = nat (minLength h) + length (suffix h)"
    and s3: "drop (nat (minLength h)) (buffer s) = suffix h"
    by (simp_all add: se)
  from config_fields [OF s1] have cf: "allowedKeys s = allowedKeys h" "minLength s = minLength h"
    by simp_all
  have t: "tries s = tries h + of_nat i" by (subst s1) simp
  have len: "nat (minLength s) \<le> length (buffer s)" using s2 by (simp add: cf)
  have draws: "allowedKeys h ! rnd t (length (allowedKeys h)) \<in> set (allowedKeys h)" for t
    using assms by simp
  define b' where "b' = map (\<lambda>j. allowedKeys h ! rnd (intnCalls e' + j) (length (allowedKeys h)))
                           [0 ..< nat (minLength h)] @ suffix h"
  have st: "rndState rnd (h, e) (Suc i)
      = (s\<lparr>buffer := b', tries := tries s + 1\<rparr>,
         e'\<lparr>intnCalls := intnCalls e' + nat (minLength h), equalsCalls := equalsCalls e' + 1\<rparr>)"
    by (simp add: rndState_Suc se rndStep_eq [OF len] cf s3 b'_def)
  have b1: "length b' = nat (minLength h) + length (suffix h)"
    and b2: "drop (nat (minLength h)) b' = suffix h"
    and b3: "\<forall>j<nat (minLength h). b' ! j \<in> set (allowedKeys h)"
    using draws by (simp_all add: b'_def nth_append)
  have "s\<lparr>buffer := b', tries := tries s + 1\<rparr> = h\<lparr>buffer := b', tries := tries h + of_nat (Suc i)\<rparr>"
    using config_update [OF s1, where b' = b' and t' = "tries s + 1"]
    by (simp add: t ac_simps)
  then show ?case
    using b1 b2 b3 by (simp add: st e1)
qed

lemma rollerFallback_never:
  assumes "allowedKeys h \<noteq> []" "c \<le> length (buffer h)"
    and "\<forall>j<c. buffer h ! j \<in> set (allowedKeys h)"
  shows "\<not> rollerFallback (allowedKeys h ! 0) (last (allowedKeys h)) h c"
  using assms
proof (induction c arbitrary: h)
  case 0
  then show ?case by simp
next
  case (Suc c)
  let ?A = "allowedKeys h"
  let ?B = "buffer h"
  from Suc.prems have c: "c < length ?B" and x: "?B ! c \<in> set ?A"
    and below: "\<forall>j<c. ?B ! j \<in> set ?A" by auto
  show ?case
  proof (cases "buffer h ! c = (if reverse h then ?A ! 0 else last ?A)")
    case wrap: True
    define v where "v = (if reverse h then last ?A else ?A ! 0)"
    define h1 where "h1 = h\<lparr>buffer := ?B[c := v]\<rparr>"
    have h1: "allowedKeys h1 = ?A" "buffer h1 = ?B[c := v]"
      by (simp_all add: h1_def)
    have "allowedKeys h1 \<noteq> []" "c \<le> length (buffer h1)"
      "\<forall>j<c. buffer h1 ! j \<in> set (allowedKeys h1)"
      using Suc.prems c below by (auto simp: h1)
    from Suc.IH [OF this]
    have "\<not> rollerFallback (?A ! 0) (last ?A) h1 c"
      by (simp add: h1)
    then show ?thesis
      using wrap by (auto simp: h1_def v_def)
  next
    case False
    show ?thesis
    proof (cases "reverse h")
      case True
      from prevValueFor_range_mem [OF x, of "?A ! 0"] True False show ?thesis
        by auto
    next
      case nr: False
      with False have "?B ! c \<noteq> last ?A" by simp
      from nextValueFor_range_mem [OF x this] nr False show ?thesis
        by auto
    qed
  qed
qed

lemma sorted_distinct_nth_less:
  "sorted A \<Longrightarrow> distinct A \<Longrightarrow> i < j \<Longrightarrow> j < length A \<Longrightarrow> A ! i < (A ! j :: byte)"
proof -
  assume "sorted A" "distinct A" and ij: "i < j" "j < length A"
  then have "sorted_wrt (<) A" by (simp add: strict_sorted_iff)
  then show ?thesis using ij by (rule sorted_wrt_nth_less)
qed

lemma sorted_distinct_next_least:
  assumes "sorted A" "distinct A" "Suc i < length A" "y \<in> set A" "A ! i < (y :: byte)"
  shows "A ! Suc i \<le> y"
proof -
  from assms(4) obtain j where j: "j < length A" "y = A ! j" by (auto simp: in_set_conv_nth)
  have "\<not> j \<le> i"
  proof
    assume "j \<le> i"
    with assms(1,3) have "A ! j \<le> A ! i" by (simp add: sorted_nth_mono)
    with assms(5) j show False by simp
  qed
  then have "Suc i \<le> j" by simp
  with assms(1) j show ?thesis by (simp add: sorted_nth_mono)
qed

lemma sorted_distinct_prev_greatest:
  assumes "sorted A" "distinct A" "0 < i" "i < length A" "y \<in> set A" "y < (A ! i :: byte)"
  shows "y \<le> A ! (i - 1)"
proof -
  from assms(5) obtain j where j: "j < length A" "y = A ! j" by (auto simp: in_set_conv_nth)
  have "\<not> i \<le> j"
  proof
    assume "i \<le> j"
    with assms(1) j have "A ! i \<le> A ! j" by (simp add: sorted_nth_mono)
    with assms(6) j show False by simp
  qed
  then have "j \<le> i - 1" by simp
  with assms(1,4) show ?thesis by (simp add: j sorted_nth_mono)
qed

section \<open>Ranks of prefixes\<close>

lemma keyIndex_less: "b \<in> set A \<Longrightarrow> keyIndex A b < length A"
  by (induction A) auto

lemma nth_keyIndex: "b \<in> set A \<Longrightarrow> A ! keyIndex A b = b"
  by (induction A) auto

lemma keyIndex_nth: "distinct A \<Longrightarrow> i < length A \<Longrightarrow> keyIndex A (A ! i) = i"
proof (induction A arbitrary: i)
  case Nil
  then show ?case by simp
next
  case (Cons x xs)
  then show ?case by (cases i) auto
qed

lemma keyIndex_inj:
  "x \<in> set A \<Longrightarrow> y \<in> set A \<Longrightarrow> keyIndex A x = keyIndex A y \<Longrightarrow> x = y"
  by (metis nth_keyIndex)

lemma keyIndex_mono:
  assumes "sorted A" "distinct A" "x \<in> set A" "y \<in> set A"
  shows "x < y \<longleftrightarrow> keyIndex A x < keyIndex A y"
proof
  assume xy: "x < y"
  show "keyIndex A x < keyIndex A y"
  proof (rule ccontr)
    assume "\<not> keyIndex A x < keyIndex A y"
    then have "keyIndex A y \<le> keyIndex A x" by simp
    with assms(1) keyIndex_less [OF assms(3)]
    have "A ! keyIndex A y \<le> A ! keyIndex A x" by (simp add: sorted_nth_mono)
    with assms(3,4) xy show False by (simp add: nth_keyIndex)
  qed
next
  assume "keyIndex A x < keyIndex A y"
  with assms(1,2) keyIndex_less [OF assms(4)]
  have "A ! keyIndex A x < A ! keyIndex A y" by (simp add: sorted_distinct_nth_less)
  with assms(3,4) show "x < y" by (simp add: nth_keyIndex)
qed

lemma rank_Nil: "rank A [] = 0"
  by (simp add: rank_def)

lemma rank_snoc: "rank A (xs @ [x]) = rank A xs * length A + keyIndex A x"
  by (simp add: rank_def)

lemma foldl_horner:
  "foldl (\<lambda>acc x. acc * k + f x) a xs
     = a * k ^ length xs + foldl (\<lambda>acc x. acc * k + f x) (0::nat) xs"
proof (induction xs rule: rev_induct)
  case Nil
  then show ?case by simp
next
  case (snoc x xs)
  then show ?case by (simp add: algebra_simps)
qed

lemma rank_Cons: "rank A (x # xs) = keyIndex A x * length A ^ length xs + rank A xs"
  using foldl_horner [of "length A" "keyIndex A" "keyIndex A x" xs]
  by (simp add: rank_def)

lemma digit_bound: "r < K \<Longrightarrow> i < k \<Longrightarrow> r * k + i < k * (K::nat)"
proof -
  assume r: "r < K" and i: "i < k"
  have "r * k + i < r * k + k" using i by simp
  also have "\<dots> = Suc r * k" by simp
  also have "\<dots> \<le> K * k" using r by (intro mult_le_mono1) simp
  finally show ?thesis by (simp add: mult.commute)
qed

lemma rank_less: "set xs \<subseteq> set A \<Longrightarrow> rank A xs < length A ^ length xs"
proof (induction xs rule: rev_induct)
  case Nil
  then show ?case by (simp add: rank_Nil)
next
  case (snoc x xs)
  then have "rank A xs < length A ^ length xs" "keyIndex A x < length A"
    by (simp_all add: keyIndex_less)
  then show ?case
    using digit_bound [of "rank A xs" "length A ^ length xs" "keyIndex A x" "length A"]
    by (simp add: rank_snoc)
qed

lemma two_digits_less:
  assumes "r < K" "s < (K::nat)"
  shows "a * K + r < b * K + s \<longleftrightarrow> a < b \<or> a = b \<and> r < s"
proof (cases a b rule: linorder_cases)
  case less
  have "a * K + r < Suc a * K" using assms by simp
  also have "\<dots> \<le> b * K" using less by (intro mult_le_mono1) simp
  finally show ?thesis using less by simp
next
  case equal
  then show ?thesis by simp
next
  case greater
  have "b * K + s < Suc b * K" using assms by simp
  also have "\<dots> \<le> a * K" using greater by (intro mult_le_mono1) simp
  finally show ?thesis using greater by simp
qed

lemma two_digits_eq:
  assumes "r < K" "s < (K::nat)" "a * K + r = b * K + s"
  shows "a = b \<and> r = s"
  using two_digits_less [OF assms(1,2), of a b] two_digits_less [OF assms(2,1), of b a] assms(3)
  by (cases a b rule: linorder_cases) auto

lemma rank_inj:
  "length xs = length ys \<Longrightarrow> set xs \<subseteq> set A \<Longrightarrow> set ys \<subseteq> set A \<Longrightarrow>
     rank A xs = rank A ys \<Longrightarrow> xs = ys"
proof (induction xs ys rule: list_induct2)
  case Nil
  then show ?case by simp
next
  case (Cons x xs y ys)
  from Cons.prems have sx: "set xs \<subseteq> set A" and sy: "set ys \<subseteq> set A"
    and x: "x \<in> set A" and y: "y \<in> set A" by auto
  from rank_less [OF sx] rank_less [OF sy] Cons.hyps Cons.prems(3)
  have "keyIndex A x = keyIndex A y \<and> rank A xs = rank A ys"
    by (intro two_digits_eq [where K = "length A ^ length xs"]) (simp_all add: rank_Cons)
  with Cons.IH [OF sx sy] keyIndex_inj [OF x y] show ?case by simp
qed

lemma rank_lex:
  assumes "sorted A" "distinct A"
  shows "length xs = length ys \<Longrightarrow> set xs \<subseteq> set A \<Longrightarrow> set ys \<subseteq> set A \<Longrightarrow>
     xs < ys \<longleftrightarrow> rank A xs < rank A ys"
proof (induction xs ys rule: list_induct2)
  case Nil
  then show ?case by (simp add: rank_Nil)
next
  case (Cons x xs y ys)
  from Cons.prems have sx: "set xs \<subseteq> set A" and sy: "set ys \<subseteq> set A"
    and x: "x \<in> set A" and y: "y \<in> set A" by auto
  have lt: "rank A xs < length A ^ length xs" "rank A ys < length A ^ length xs"
    using rank_less [OF sx] rank_less [OF sy] Cons.hyps by simp_all
  have "rank A (x # xs) < rank A (y # ys) \<longleftrightarrow>
      keyIndex A x < keyIndex A y \<or> keyIndex A x = keyIndex A y \<and> rank A xs < rank A ys"
    using two_digits_less [OF lt] Cons.hyps by (simp add: rank_Cons)
  also have "\<dots> \<longleftrightarrow> x < y \<or> x = y \<and> xs < ys"
    using keyIndex_mono [OF assms x y] keyIndex_inj [OF x y] Cons.IH [OF sx sy] by auto
  finally show ?case by simp
qed

section \<open>The roller loop counts\<close>

lemma prefix_set: "n \<le> length b \<Longrightarrow> (\<forall>j<n. b ! j \<in> S) \<Longrightarrow> set (take n b) \<subseteq> S"
  by (auto simp: set_conv_nth)

lemma keyIndex_first: "A \<noteq> [] \<Longrightarrow> keyIndex A (A ! 0) = 0"
  by (cases A) auto

lemma keyIndex_last: "distinct A \<Longrightarrow> A \<noteq> [] \<Longrightarrow> keyIndex A (last A) = length A - 1"
  using keyIndex_nth [of A "length A - 1"] by (simp add: last_conv_nth)

lemma keyIndex_not_last:
  assumes "distinct A" "x \<in> set A" "x \<noteq> last A"
  shows "Suc (keyIndex A x) < length A"
proof (rule ccontr)
  assume "\<not> Suc (keyIndex A x) < length A"
  with keyIndex_less [OF assms(2)] have "keyIndex A x = length A - 1" by simp
  moreover from assms(2) have "A \<noteq> []" by auto
  ultimately have "x = last A"
    using nth_keyIndex [OF assms(2)] by (simp add: last_conv_nth)
  with assms(3) show False by simp
qed

lemma keyIndex_next:
  assumes "distinct (allowedKeys h)" "x \<in> set (allowedKeys h)" "x \<noteq> last (allowedKeys h)"
  shows "keyIndex (allowedKeys h) (nextValueFor h x) = Suc (keyIndex (allowedKeys h) x)"
proof -
  let ?A = "allowedKeys h"
  have i: "Suc (keyIndex ?A x) < length ?A" using assms by (rule keyIndex_not_last)
  from nextValueFor_range_nth [OF assms(1) i]
  have "nextValueFor h x = ?A ! Suc (keyIndex ?A x)"
    using assms(2) by (simp add: nextValueFor_def nth_keyIndex)
  with assms(1) i show ?thesis by (simp add: keyIndex_nth)
qed

lemma keyIndex_prev:
  assumes "distinct (allowedKeys h)" "x \<in> set (allowedKeys h)" "x \<noteq> allowedKeys h ! 0"
  shows "Suc (keyIndex (allowedKeys h) (prevValueFor h x)) = keyIndex (allowedKeys h) x"
proof -
  let ?A = "allowedKeys h"
  have i: "keyIndex ?A x < length ?A" using assms(2) by (rule keyIndex_less)
  have pos: "0 < keyIndex ?A x"
    using nth_keyIndex [OF assms(2)] assms(3) by (cases "keyIndex ?A x") auto
  from prevValueFor_range_nth [OF assms(1) i, of "?A ! 0"]
  have "prevValueFor h x = ?A ! (keyIndex ?A x - 1)"
    using assms(2) pos by (simp add: prevValueFor_def nth_keyIndex)
  with assms(1) i pos show ?thesis by (simp add: keyIndex_nth)
qed

lemma take_Suc_update:
  "c < length B \<Longrightarrow> take (Suc c) (B[c := v]) = take c B @ [v]"
  by (simp add: take_Suc_conv_app_nth)

lemma rollerLoop_rank_up:
  assumes "distinct (allowedKeys h)" "allowedKeys h \<noteq> []" "\<not> reverse h"
    and "c \<le> length (buffer h)" "\<forall>j<c. buffer h ! j \<in> set (allowedKeys h)"
  shows "rank (allowedKeys h)
           (take c (buffer (rollerLoop (allowedKeys h ! 0) (last (allowedKeys h)) h c)))
       = (rank (allowedKeys h) (take c (buffer h)) + 1) mod length (allowedKeys h) ^ c"
  using assms
proof (induction c arbitrary: h)
  case 0
  then show ?case by (simp add: rank_Nil)
next
  case (Suc c)
  let ?A = "allowedKeys h"
  let ?B = "buffer h"
  let ?k = "length ?A"
  from Suc.prems have c: "c < length ?B" and x: "?B ! c \<in> set ?A"
    and below: "\<forall>j<c. ?B ! j \<in> set ?A" and nr: "\<not> reverse h"
    and d: "distinct ?A" and ne: "?A \<noteq> []" by auto
  have tk: "take (Suc c) ?B = take c ?B @ [?B ! c]"
    using c by (simp add: take_Suc_conv_app_nth)
  have sub: "set (take c ?B) \<subseteq> set ?A"
    using c below by (intro prefix_set) simp_all
  have rl: "rank ?A (take c ?B) < ?k ^ c"
    using rank_less [OF sub] c by simp
  show ?case
  proof (cases "?B ! c = last ?A")
    case wrap: True
    define h1 where "h1 = h\<lparr>buffer := ?B[c := ?A ! 0]\<rparr>"
    define R where "R = rollerLoop (?A ! 0) (last ?A) h1 c"
    have h1: "allowedKeys h1 = ?A" "buffer h1 = ?B[c := ?A ! 0]" "reverse h1 = reverse h"
      by (simp_all add: h1_def)
    have pre: "allowedKeys h1 \<noteq> []" "c \<le> length (buffer h1)"
      "\<forall>j<c. buffer h1 ! j \<in> set (allowedKeys h1)"
      using ne c below by (auto simp: h1)
    from rollerLoop_shape [OF pre]
    have R2: "length (buffer R) = length ?B"
      and R3: "\<forall>j\<ge>c. buffer R ! j = ?B[c := ?A ! 0] ! j"
      by (simp_all add: h1 R_def)
    have "distinct (allowedKeys h1)" "allowedKeys h1 \<noteq> []" "\<not> reverse h1"
      using d ne nr by (simp_all add: h1)
    from Suc.IH [OF this pre(2,3)]
    have IH: "rank ?A (take c (buffer R)) = (rank ?A (take c ?B) + 1) mod ?k ^ c"
      using c by (simp add: h1 R_def)
    have step: "rollerLoop (?A ! 0) (last ?A) h (Suc c) = R"
      using wrap nr by (simp add: R_def h1_def)
    have Rc: "buffer R ! c = ?A ! 0" using R3 c by simp
    have "take (Suc c) (buffer R) = take c (buffer R) @ [?A ! 0]"
      using c R2 Rc by (simp add: take_Suc_conv_app_nth)
    then have "rank ?A (take (Suc c) (buffer R)) = ((rank ?A (take c ?B) + 1) mod ?k ^ c) * ?k"
      using IH ne by (simp add: rank_snoc keyIndex_first)
    also have "\<dots> = ((rank ?A (take c ?B) + 1) * ?k) mod (?k ^ c * ?k)"
      by (simp add: mult_mod_left)
    also have "(rank ?A (take c ?B) + 1) * ?k = rank ?A (take (Suc c) ?B) + 1"
      using wrap d ne by (simp add: tk rank_snoc keyIndex_last algebra_simps)
    finally show ?thesis
      unfolding step by (simp add: mult.commute)
  next
    case False
    have step: "rollerLoop (?A ! 0) (last ?A) h (Suc c) = h\<lparr>buffer := ?B[c := nextValueFor h (?B ! c)]\<rparr>"
      using False nr by simp
    have ki: "keyIndex ?A (nextValueFor h (?B ! c)) = Suc (keyIndex ?A (?B ! c))"
      using d x False by (rule keyIndex_next)
    have lt: "Suc (keyIndex ?A (?B ! c)) < ?k"
      using d x False by (rule keyIndex_not_last)
    have "rank ?A (take c ?B) * ?k + Suc (keyIndex ?A (?B ! c)) < ?k * ?k ^ c"
      using rl lt by (rule digit_bound)
    then show ?thesis
      unfolding step using c by (simp add: take_Suc_update tk rank_snoc ki)
  qed
qed

lemma rollerLoop_rank_down:
  assumes "distinct (allowedKeys h)" "allowedKeys h \<noteq> []" "reverse h"
    and "c \<le> length (buffer h)" "\<forall>j<c. buffer h ! j \<in> set (allowedKeys h)"
  shows "(rank (allowedKeys h)
           (take c (buffer (rollerLoop (allowedKeys h ! 0) (last (allowedKeys h)) h c))) + 1)
           mod length (allowedKeys h) ^ c
       = rank (allowedKeys h) (take c (buffer h))"
  using assms
proof (induction c arbitrary: h)
  case 0
  then show ?case by (simp add: rank_Nil)
next
  case (Suc c)
  let ?A = "allowedKeys h"
  let ?B = "buffer h"
  let ?k = "length ?A"
  from Suc.prems have c: "c < length ?B" and x: "?B ! c \<in> set ?A"
    and below: "\<forall>j<c. ?B ! j \<in> set ?A" and rv: "reverse h"
    and d: "distinct ?A" and ne: "?A \<noteq> []" by auto
  have tk: "take (Suc c) ?B = take c ?B @ [?B ! c]"
    using c by (simp add: take_Suc_conv_app_nth)
  have sub: "set (take c ?B) \<subseteq> set ?A"
    using c below by (intro prefix_set) simp_all
  have rl: "rank ?A (take c ?B) < ?k ^ c"
    using rank_less [OF sub] c by simp
  show ?case
  proof (cases "?B ! c = ?A ! 0")
    case wrap: True
    define h1 where "h1 = h\<lparr>buffer := ?B[c := last ?A]\<rparr>"
    define R where "R = rollerLoop (?A ! 0) (last ?A) h1 c"
    have h1: "allowedKeys h1 = ?A" "buffer h1 = ?B[c := last ?A]" "reverse h1 = reverse h"
      by (simp_all add: h1_def)
    have pre: "allowedKeys h1 \<noteq> []" "c \<le> length (buffer h1)"
      "\<forall>j<c. buffer h1 ! j \<in> set (allowedKeys h1)"
      using ne c below by (auto simp: h1)
    from rollerLoop_shape [OF pre]
    have R2: "length (buffer R) = length ?B"
      and R3: "\<forall>j\<ge>c. buffer R ! j = ?B[c := last ?A] ! j"
      by (simp_all add: h1 R_def)
    have "distinct (allowedKeys h1)" "allowedKeys h1 \<noteq> []" "reverse h1"
      using d ne rv by (simp_all add: h1)
    from Suc.IH [OF this pre(2,3)]
    have IH: "(rank ?A (take c (buffer R)) + 1) mod ?k ^ c = rank ?A (take c ?B)"
      using c by (simp add: h1 R_def)
    have step: "rollerLoop (?A ! 0) (last ?A) h (Suc c) = R"
      using wrap rv by (simp add: R_def h1_def)
    have Rc: "buffer R ! c = last ?A" using R3 c by simp
    have k: "0 < ?k" using ne by simp
    have "take (Suc c) (buffer R) = take c (buffer R) @ [last ?A]"
      using c R2 Rc by (simp add: take_Suc_conv_app_nth)
    then have "rank ?A (take (Suc c) (buffer R)) + 1 = (rank ?A (take c (buffer R)) + 1) * ?k"
      using d ne k by (simp add: rank_snoc keyIndex_last algebra_simps)
    then have "(rank ?A (take (Suc c) (buffer R)) + 1) mod (?k ^ c * ?k)
        = ((rank ?A (take c (buffer R)) + 1) mod ?k ^ c) * ?k"
      by (simp add: mult_mod_left)
    also have "\<dots> = rank ?A (take (Suc c) ?B)"
      using IH wrap ne by (simp add: tk rank_snoc keyIndex_first)
    finally show ?thesis
      unfolding step by (simp add: mult.commute)
  next
    case False
    have step: "rollerLoop (?A ! 0) (last ?A) h (Suc c) = h\<lparr>buffer := ?B[c := prevValueFor h (?B ! c)]\<rparr>"
      using False rv by simp
    have ki: "Suc (keyIndex ?A (prevValueFor h (?B ! c))) = keyIndex ?A (?B ! c)"
      using d x False by (rule keyIndex_prev)
    have lt: "keyIndex ?A (?B ! c) < ?k"
      using x by (rule keyIndex_less)
    have "rank ?A (take c ?B) * ?k + keyIndex ?A (?B ! c) < ?k * ?k ^ c"
      using rl lt by (rule digit_bound)
    then show ?thesis
      unfolding step using c ki by (simp add: take_Suc_update tk rank_snoc)
  qed
qed

lemma seqPrefix_0:
  "allowedKeys h \<noteq> [] \<Longrightarrow>
     seqPrefix h 0 = replicate (nat (minLength h))
       (if reverse h then last (allowedKeys h) else allowedKeys h ! 0)"
  by (simp add: seqPrefix_def seqState_def seqInit_eq)

lemma seqPrefix_shape:
  assumes "allowedKeys h \<noteq> []"
  shows "length (seqPrefix h i) = nat (minLength h)" "set (seqPrefix h i) \<subseteq> set (allowedKeys h)"
proof -
  from seqState_shape [OF assms, of i]
  have s2: "length (buffer (seqState h i)) = nat (minLength h) + length (suffix h)"
    and s4: "\<forall>j<nat (minLength h). buffer (seqState h i) ! j \<in> set (allowedKeys h)"
    by blast+
  show "length (seqPrefix h i) = nat (minLength h)"
    using s2 by (simp add: seqPrefix_def)
  show "set (seqPrefix h i) \<subseteq> set (allowedKeys h)"
    unfolding seqPrefix_def using s2 s4 by (intro prefix_set) simp_all
qed

lemma seqPrefix_step:
  assumes "distinct (allowedKeys h)" "allowedKeys h \<noteq> []"
  shows "\<not> reverse h \<Longrightarrow>
           rank (allowedKeys h) (seqPrefix h (Suc i))
             = (rank (allowedKeys h) (seqPrefix h i) + 1) mod length (allowedKeys h) ^ nat (minLength h)"
    and "reverse h \<Longrightarrow>
           (rank (allowedKeys h) (seqPrefix h (Suc i)) + 1) mod length (allowedKeys h) ^ nat (minLength h)
             = rank (allowedKeys h) (seqPrefix h i)"
proof -
  define s where "s = seqState h i"
  from seqState_shape [OF assms(2), of i]
  have s1: "s = h\<lparr>buffer := buffer s, tries := tries h + of_nat i\<rparr>"
    and s2: "length (buffer s) = nat (minLength h) + length (suffix h)"
    and s4: "\<forall>j<nat (minLength h). buffer s ! j \<in> set (allowedKeys h)"
    unfolding s_def by blast+
  from config_fields [OF s1] have cf: "allowedKeys s = allowedKeys h" "minLength s = minLength h"
    "reverse s = reverse h" by simp_all
  define R where "R = rollerLoop (allowedKeys h ! 0) (last (allowedKeys h)) s (nat (minLength h))"
  have step: "buffer (seqState h (Suc i)) = buffer R"
    using assms(2) by (simp add: seqState_Suc s_def [symmetric] seqStep_def Let_def cf R_def last_conv_nth)
  have pre: "distinct (allowedKeys s)" "allowedKeys s \<noteq> []"
    "nat (minLength h) \<le> length (buffer s)" "\<forall>j<nat (minLength h). buffer s ! j \<in> set (allowedKeys s)"
    using assms s2 s4 by (simp_all add: cf)
  have p: "seqPrefix h i = take (nat (minLength h)) (buffer s)"
    by (simp add: seqPrefix_def s_def)
  have p': "seqPrefix h (Suc i) = take (nat (minLength h)) (buffer R)"
    by (simp add: seqPrefix_def step)
  show "rank (allowedKeys h) (seqPrefix h (Suc i))
      = (rank (allowedKeys h) (seqPrefix h i) + 1) mod length (allowedKeys h) ^ nat (minLength h)"
    if "\<not> reverse h"
    unfolding p p' using rollerLoop_rank_up [OF pre(1,2) _ pre(3,4)] that
    by (simp add: cf R_def)
  show "(rank (allowedKeys h) (seqPrefix h (Suc i)) + 1) mod length (allowedKeys h) ^ nat (minLength h)
      = rank (allowedKeys h) (seqPrefix h i)"
    if "reverse h"
    unfolding p p' using rollerLoop_rank_down [OF pre(1,2) _ pre(3,4)] that
    by (simp add: cf R_def)
qed

lemma rank_replicate_first: "A \<noteq> [] \<Longrightarrow> rank A (replicate n (A ! 0)) = 0"
  by (induction n) (simp_all add: rank_Nil rank_Cons keyIndex_first)

lemma rank_replicate_last:
  "distinct A \<Longrightarrow> A \<noteq> [] \<Longrightarrow> Suc (rank A (replicate n (last A))) = length A ^ n"
proof (induction n)
  case 0
  then show ?case by (simp add: rank_Nil)
next
  case (Suc n)
  then obtain k where k: "length A = Suc k" by (cases A) auto
  from Suc have "rank A (replicate (Suc n) (last A)) + 1
      = (length A - 1) * length A ^ n + length A ^ n"
    by (simp add: rank_Cons keyIndex_last)
  also have "\<dots> = length A * length A ^ n"
    by (simp add: k)
  finally show ?case by simp
qed

lemma seqPrefix_rank_up:
  assumes "distinct (allowedKeys h)" "allowedKeys h \<noteq> []" "\<not> reverse h"
  shows "rank (allowedKeys h) (seqPrefix h i) = i mod length (allowedKeys h) ^ nat (minLength h)"
proof (induction i)
  case 0
  from assms show ?case by (simp add: seqPrefix_0 rank_replicate_first)
next
  case (Suc i)
  from seqPrefix_step(1) [OF assms(1,2,3), of i] Suc show ?case
    by (simp add: mod_Suc_eq)
qed

lemma seqPrefix_rank_down:
  assumes "distinct (allowedKeys h)" "allowedKeys h \<noteq> []" "reverse h"
  shows "Suc (rank (allowedKeys h) (seqPrefix h i) + i mod length (allowedKeys h) ^ nat (minLength h))
       = length (allowedKeys h) ^ nat (minLength h)"
proof (induction i)
  case 0
  from assms show ?case by (simp add: seqPrefix_0 rank_replicate_last)
next
  case (Suc i)
  let ?K = "length (allowedKeys h) ^ nat (minLength h)"
  let ?r = "rank (allowedKeys h) (seqPrefix h i)"
  let ?r' = "rank (allowedKeys h) (seqPrefix h (Suc i))"
  have st: "(?r' + 1) mod ?K = ?r"
    using seqPrefix_step(2) [OF assms(1,2,3), of i] .
  have lt: "?r' < ?K"
    using rank_less [OF seqPrefix_shape(2) [OF assms(2), of "Suc i"]]
    by (simp add: seqPrefix_shape(1) [OF assms(2)])
  show ?case
  proof (cases "Suc ?r' = ?K")
    case True
    with st have "?r = 0" by simp
    with Suc have "Suc (i mod ?K) = ?K" by simp
    then have "Suc i mod ?K = 0" by (simp add: mod_Suc)
    with True show ?thesis by simp
  next
    case False
    with lt have "Suc ?r' < ?K" by simp
    with st have r: "?r = Suc ?r'" by simp
    with Suc have "Suc (i mod ?K) \<noteq> ?K" by simp
    then have "Suc i mod ?K = Suc (i mod ?K)" by (simp add: mod_Suc)
    with Suc r show ?thesis by simp
  qed
qed

lemma seqPrefix_rank:
  assumes "distinct (allowedKeys h)" "allowedKeys h \<noteq> []"
  shows "rank (allowedKeys h) (seqPrefix h i)
       = (if reverse h
          then length (allowedKeys h) ^ nat (minLength h) - 1
                 - i mod length (allowedKeys h) ^ nat (minLength h)
          else i mod length (allowedKeys h) ^ nat (minLength h))"
  using seqPrefix_rank_up [OF assms, of i] seqPrefix_rank_down [OF assms, of i]
  by (cases "reverse h") simp_all

lemma down_inj: "a < K \<Longrightarrow> b < K \<Longrightarrow> K - 1 - a = K - 1 - b \<longleftrightarrow> a = (b::nat)"
  by arith

lemma down_less: "a < K \<Longrightarrow> b < K \<Longrightarrow> K - 1 - a < K - 1 - b \<longleftrightarrow> b < (a::nat)"
  by arith

lemma down_down: "r < K \<Longrightarrow> K - 1 - r < K \<and> K - 1 - (K - 1 - r) = (r::nat)"
  by arith

lemma seqPrefix_eq_iff:
  assumes "distinct (allowedKeys h)" "allowedKeys h \<noteq> []"
  shows "seqPrefix h i = seqPrefix h j \<longleftrightarrow>
           i mod length (allowedKeys h) ^ nat (minLength h)
             = j mod length (allowedKeys h) ^ nat (minLength h)"
proof -
  define K where "K = length (allowedKeys h) ^ nat (minLength h)"
  have K: "0 < K" using assms(2) by (simp add: K_def)
  have lt: "i mod K < K" "j mod K < K" using K by simp_all
  have "seqPrefix h i = seqPrefix h j \<longleftrightarrow>
      rank (allowedKeys h) (seqPrefix h i) = rank (allowedKeys h) (seqPrefix h j)"
    using rank_inj [of "seqPrefix h i" "seqPrefix h j" "allowedKeys h"]
      seqPrefix_shape [OF assms(2)]
    by auto
  also have "\<dots> \<longleftrightarrow> i mod K = j mod K"
    using down_inj [OF lt] by (simp add: seqPrefix_rank [OF assms] K_def [symmetric])
  finally show ?thesis by (simp add: K_def)
qed

lemma seqPrefix_visits:
  assumes "distinct (allowedKeys h)" "allowedKeys h \<noteq> []"
    and "length xs = nat (minLength h)" "set xs \<subseteq> set (allowedKeys h)"
  shows "\<exists>i<length (allowedKeys h) ^ nat (minLength h). seqPrefix h i = xs"
proof -
  let ?A = "allowedKeys h"
  let ?K = "length ?A ^ nat (minLength h)"
  from assms(3,4) have r: "rank ?A xs < ?K" using rank_less [of xs ?A] by simp
  define i where "i = (if reverse h then ?K - 1 - rank ?A xs else rank ?A xs)"
  have i: "i < ?K" using down_down [OF r] r by (simp add: i_def)
  have "rank ?A (seqPrefix h i) = rank ?A xs"
    using down_down [OF r] r by (simp add: seqPrefix_rank [OF assms(1,2)] i_def)
  then have "seqPrefix h i = xs"
    using assms(3,4) seqPrefix_shape [OF assms(2), of i]
    by (intro rank_inj [of _ _ ?A]) simp_all
  with i show ?thesis by blast
qed

section \<open>The search loop\<close>

lemma seqLoop_iterate:
  "equals d ((seqStep ^^ m) s) \<Longrightarrow> (\<forall>j<m. \<not> equals d ((seqStep ^^ j) s)) \<Longrightarrow>
     seqLoop d s = Some ((seqStep ^^ m) s)"
proof (induction m arbitrary: s)
  case 0
  then show ?case by (subst seqLoop.simps) simp
next
  case (Suc m)
  from Suc.prems(2) have n0: "\<not> equals d s" by (auto dest: spec [of _ 0])
  from Suc.prems(1) have 1: "equals d ((seqStep ^^ m) (seqStep s))"
    by (simp add: funpow_swap1)
  have 2: "\<forall>j<m. \<not> equals d ((seqStep ^^ j) (seqStep s))"
  proof (intro allI impI)
    fix j assume "j < m"
    then have "Suc j < Suc m" by simp
    with Suc.prems(2) have "\<not> equals d ((seqStep ^^ Suc j) s)" by blast
    then show "\<not> equals d ((seqStep ^^ j) (seqStep s))" by (simp add: funpow_swap1)
  qed
  have "seqLoop d s = seqLoop d (seqStep s)"
    using n0 by (subst seqLoop.simps) simp
  also have "\<dots> = Some ((seqStep ^^ m) (seqStep s))"
    using 1 2 by (rule Suc.IH)
  finally show ?case by (simp add: funpow_swap1)
qed

lemma seqLoop_SomeD:
  "seqLoop d s = Some y \<Longrightarrow>
     \<exists>m. y = (seqStep ^^ m) s \<and> equals d y \<and> (\<forall>j<m. \<not> equals d ((seqStep ^^ j) s))"
proof (induction rule: seqLoop.raw_induct [rotated 1, consumes 1])
  case (1 loop d s y)
  show ?case
  proof (cases "equals d s")
    case True
    with 1(2) have "y = (seqStep ^^ 0) s" by simp
    with True show ?thesis by (intro exI [of _ 0]) simp
  next
    case False
    with 1(2) have "loop d (seqStep s) = Some y" by simp
    from 1(1) [OF this] obtain m where m: "y = (seqStep ^^ m) (seqStep s)" "equals d y"
      "\<forall>j<m. \<not> equals d ((seqStep ^^ j) (seqStep s))" by blast
    have "\<forall>j<Suc m. \<not> equals d ((seqStep ^^ j) s)"
    proof (intro allI impI)
      fix j assume j: "j < Suc m"
      show "\<not> equals d ((seqStep ^^ j) s)"
      proof (cases j)
        case 0
        with False show ?thesis by simp
      next
        case (Suc j')
        with j m(3) show ?thesis by (simp add: funpow_swap1)
      qed
    qed
    with m(1,2) show ?thesis
      by (intro exI [of _ "Suc m"]) (simp add: funpow_swap1)
  qed
qed

lemma seqLoop_least:
  assumes "equals d ((seqStep ^^ i) s)"
  shows "\<exists>m\<le>i. seqLoop d s = Some ((seqStep ^^ m) s) \<and> equals d ((seqStep ^^ m) s)
            \<and> (\<forall>j<m. \<not> equals d ((seqStep ^^ j) s))"
proof -
  define m where "m = (LEAST m. equals d ((seqStep ^^ m) s))"
  have 1: "equals d ((seqStep ^^ m) s)"
    unfolding m_def using assms by (rule LeastI)
  have 2: "\<forall>j<m. \<not> equals d ((seqStep ^^ j) s)"
    unfolding m_def by (auto dest: not_less_Least)
  have 3: "m \<le> i" unfolding m_def using assms by (rule Least_le)
  from seqLoop_iterate [OF 1 2] 1 2 3 show ?thesis by blast
qed

lemma seqLoop_None_iff:
  "seqLoop d s = None \<longleftrightarrow> (\<forall>m. \<not> equals d ((seqStep ^^ m) s))"
proof
  assume n: "seqLoop d s = None"
  show "\<forall>m. \<not> equals d ((seqStep ^^ m) s)"
  proof
    fix m
    show "\<not> equals d ((seqStep ^^ m) s)"
    proof
      assume "equals d ((seqStep ^^ m) s)"
      from seqLoop_least [OF this] n show False by auto
    qed
  qed
next
  assume a: "\<forall>m. \<not> equals d ((seqStep ^^ m) s)"
  show "seqLoop d s = None"
  proof (cases "seqLoop d s")
    case None
    then show ?thesis .
  next
    case (Some y)
    from seqLoop_SomeD [OF this] a show ?thesis by blast
  qed
qed




lemma rndLoop_iterate:
  "equals d (fst ((rndStep rnd ^^ m) s)) \<Longrightarrow>
   (\<forall>j<m. \<not> equals d (fst ((rndStep rnd ^^ j) s))) \<Longrightarrow>
     rndLoop d rnd s
       = Some (fst ((rndStep rnd ^^ m) s),
               (snd ((rndStep rnd ^^ m) s))\<lparr>equalsCalls := equalsCalls (snd ((rndStep rnd ^^ m) s)) + 1\<rparr>)"
proof (induction m arbitrary: s)
  case 0
  then show ?case by (subst rndLoop.simps) simp
next
  case (Suc m)
  from Suc.prems(2) have n0: "\<not> equals d (fst s)" by (auto dest: spec [of _ 0])
  from Suc.prems(1) have 1: "equals d (fst ((rndStep rnd ^^ m) (rndStep rnd s)))"
    by (simp add: funpow_swap1)
  have 2: "\<forall>j<m. \<not> equals d (fst ((rndStep rnd ^^ j) (rndStep rnd s)))"
  proof (intro allI impI)
    fix j assume "j < m"
    then have "Suc j < Suc m" by simp
    with Suc.prems(2) have "\<not> equals d (fst ((rndStep rnd ^^ Suc j) s))" by blast
    then show "\<not> equals d (fst ((rndStep rnd ^^ j) (rndStep rnd s)))" by (simp add: funpow_swap1)
  qed
  have "rndLoop d rnd s = rndLoop d rnd (rndStep rnd s)"
    using n0 by (subst rndLoop.simps) simp
  also note Suc.IH [OF 1 2]
  finally show ?case by (simp add: funpow_swap1)
qed

lemma rndLoop_SomeD:
  assumes "rndLoop d rnd s = Some y"
  shows "\<exists>m. equals d (fst ((rndStep rnd ^^ m) s))
            \<and> (\<forall>j<m. \<not> equals d (fst ((rndStep rnd ^^ j) s)))"
  using assms
proof (induction rule: rndLoop.raw_induct [rotated 1, consumes 1])
  case (1 loop d rnd s y)
  show ?case
  proof (cases "equals d (fst s)")
    case True
    then show ?thesis by (intro exI [of _ 0]) simp
  next
    case False
    with 1(2) have "loop d rnd (rndStep rnd s) = Some y" by simp
    from 1(1) [OF this] obtain m where m: "equals d (fst ((rndStep rnd ^^ m) (rndStep rnd s)))"
      "\<forall>j<m. \<not> equals d (fst ((rndStep rnd ^^ j) (rndStep rnd s)))" by blast
    have "\<forall>j<Suc m. \<not> equals d (fst ((rndStep rnd ^^ j) s))"
    proof (intro allI impI)
      fix j assume j: "j < Suc m"
      show "\<not> equals d (fst ((rndStep rnd ^^ j) s))"
      proof (cases j)
        case 0
        with False show ?thesis by simp
      next
        case (Suc j')
        with j m(2) show ?thesis by (simp add: funpow_swap1)
      qed
    qed
    with m(1) show ?thesis
      by (intro exI [of _ "Suc m"]) (simp add: funpow_swap1)
  qed
qed

text \<open>The field \<open>maxLength\<close> is carried along and never read.\<close>

lemma maxLength_buffer_commute:
  "h\<lparr>maxLength := m, buffer := b\<rparr> = h\<lparr>buffer := b, maxLength := m\<rparr>"
  by (cases h) simp

lemma rollerLoop_maxLength:
  "rollerLoop f l (h\<lparr>maxLength := m\<rparr>) c = (rollerLoop f l h c)\<lparr>maxLength := m\<rparr>"
proof (induction c arbitrary: h)
  case 0
  then show ?case by simp
next
  case (Suc c)
  have a: "rollerLoop f l (h\<lparr>maxLength := m, buffer := b\<rparr>) c
      = (rollerLoop f l (h\<lparr>buffer := b\<rparr>) c)\<lparr>maxLength := m\<rparr>" for b
    using Suc [of "h\<lparr>buffer := b\<rparr>"] by (simp add: maxLength_buffer_commute)
  show ?case by (simp add: a prevValueFor_def nextValueFor_def)
qed

lemma seqFill_maxLength: "seqFill (h\<lparr>maxLength := m\<rparr>) = (seqFill h)\<lparr>maxLength := m\<rparr>"
  by (simp add: seqFill_def Let_def fill_fold)

lemma seqInit_maxLength: "seqInit (h\<lparr>maxLength := m\<rparr>) = (seqInit h)\<lparr>maxLength := m\<rparr>"
  by (simp add: seqInit_def Let_def seqFill_maxLength maxLength_buffer_commute)

lemma seqStep_maxLength: "seqStep (h\<lparr>maxLength := m\<rparr>) = (seqStep h)\<lparr>maxLength := m\<rparr>"
  by (simp add: seqStep_def Let_def rollerLoop_maxLength)

lemma seqStep_funpow_maxLength:
  "(seqStep ^^ i) (h\<lparr>maxLength := m\<rparr>) = ((seqStep ^^ i) h)\<lparr>maxLength := m\<rparr>"
  by (induction i) (simp_all add: seqStep_maxLength)

lemma seqState_maxLength: "seqState (h\<lparr>maxLength := m\<rparr>) i = (seqState h i)\<lparr>maxLength := m\<rparr>"
  by (simp add: seqState_def seqInit_maxLength seqStep_funpow_maxLength)

lemma equals_maxLength: "equals d (h\<lparr>maxLength := m\<rparr>) = equals d h"
  by (simp add: equals_def)

lemma verify_maxLength: "verify (h\<lparr>maxLength := m\<rparr>) = verify h"
  by (simp add: verify_def Let_def split: option.splits)

lemma seqLoop_maxLength:
  "seqLoop d (s\<lparr>maxLength := m\<rparr>) = map_option (\<lambda>s. s\<lparr>maxLength := m\<rparr>) (seqLoop d s)"
proof (cases "seqLoop d s")
  case None
  then have "\<forall>j. \<not> equals d ((seqStep ^^ j) (s\<lparr>maxLength := m\<rparr>))"
    by (simp add: seqLoop_None_iff seqStep_funpow_maxLength equals_maxLength)
  then have "seqLoop d (s\<lparr>maxLength := m\<rparr>) = None"
    by (simp add: seqLoop_None_iff)
  with None show ?thesis by simp
next
  case (Some y)
  from seqLoop_SomeD [OF this] obtain k where k: "y = (seqStep ^^ k) s" "equals d y"
    "\<forall>j<k. \<not> equals d ((seqStep ^^ j) s)" by blast
  have "seqLoop d (s\<lparr>maxLength := m\<rparr>) = Some ((seqStep ^^ k) (s\<lparr>maxLength := m\<rparr>))"
    using k by (intro seqLoop_iterate) (simp_all add: seqStep_funpow_maxLength equals_maxLength)
  with Some k(1) show ?thesis by (simp add: seqStep_funpow_maxLength)
qed

lemma FindSequential_maxLength:
  "FindSequential d (h\<lparr>maxLength := m\<rparr>)
     = map_option (\<lambda>(r, s). (r, s\<lparr>maxLength := m\<rparr>)) (FindSequential d h)"
  by (simp add: FindSequential_def verify_maxLength seqFill_maxLength seqInit_maxLength
      seqLoop_maxLength
      split: option.splits)

lemma rndFill_maxLength: "rndFill (h\<lparr>maxLength := m\<rparr>) = (rndFill h)\<lparr>maxLength := m\<rparr>"
  by (simp add: rndFill_def Let_def fill_fold_plain)

lemma rndInit_maxLength: "rndInit (h\<lparr>maxLength := m\<rparr>) = (rndInit h)\<lparr>maxLength := m\<rparr>"
  by (simp add: rndInit_eq)

lemma maxLength_tries_commute:
  "h\<lparr>maxLength := m, tries := t\<rparr> = h\<lparr>tries := t, maxLength := m\<rparr>"
  by (cases h) simp

lemma draw_fold_maxLength:
  "fold (\<lambda>roller (g, e).
       (g\<lparr>buffer := (buffer g)[roller := allowedKeys g ! rnd (intnCalls e) l]\<rparr>,
        e\<lparr>intnCalls := Suc (intnCalls e)\<rparr>)) xs (g\<lparr>maxLength := m\<rparr>, e)
   = apfst (\<lambda>g. g\<lparr>maxLength := m\<rparr>)
       (fold (\<lambda>roller (g, e).
          (g\<lparr>buffer := (buffer g)[roller := allowedKeys g ! rnd (intnCalls e) l]\<rparr>,
           e\<lparr>intnCalls := Suc (intnCalls e)\<rparr>)) xs (g, e))"
  by (induction xs arbitrary: g e) (simp_all add: maxLength_buffer_commute)

lemma rndStep_maxLength:
  "rndStep rnd (h\<lparr>maxLength := m\<rparr>, e) = apfst (\<lambda>g. g\<lparr>maxLength := m\<rparr>) (rndStep rnd (h, e))"
  by (simp add: rndStep_def Let_def draw_fold_maxLength maxLength_tries_commute split: prod.splits)

lemma rndStep_funpow_maxLength:
  "(rndStep rnd ^^ i) (h\<lparr>maxLength := m\<rparr>, e)
     = apfst (\<lambda>g. g\<lparr>maxLength := m\<rparr>) ((rndStep rnd ^^ i) (h, e))"
proof (induction i)
  case 0
  then show ?case by simp
next
  case (Suc i)
  obtain g e' where ge: "(rndStep rnd ^^ i) (h, e) = (g, e')" by (cases "(rndStep rnd ^^ i) (h, e)")
  with Suc show ?case by (simp add: rndStep_maxLength)
qed

lemma rndState_maxLength:
  "rndState rnd (h\<lparr>maxLength := m\<rparr>, e) i = apfst (\<lambda>g. g\<lparr>maxLength := m\<rparr>) (rndState rnd (h, e) i)"
  by (simp add: rndState_def rndInit_maxLength rndStep_funpow_maxLength)

lemma rndLoop_maxLength:
  "rndLoop d rnd (h\<lparr>maxLength := m\<rparr>, e)
     = map_option (apfst (\<lambda>g. g\<lparr>maxLength := m\<rparr>)) (rndLoop d rnd (h, e))"
proof (cases "\<exists>k. equals d (fst ((rndStep rnd ^^ k) (h, e)))")
  case False
  then have 1: "rndLoop d rnd (h, e) = None"
    using rndLoop_SomeD [of d rnd "(h, e)"] by (cases "rndLoop d rnd (h, e)") auto
  from False have "\<not> (\<exists>k. equals d (fst ((rndStep rnd ^^ k) (h\<lparr>maxLength := m\<rparr>, e))))"
    by (simp add: rndStep_funpow_maxLength equals_maxLength)
  then have "rndLoop d rnd (h\<lparr>maxLength := m\<rparr>, e) = None"
    using rndLoop_SomeD [of d rnd "(h\<lparr>maxLength := m\<rparr>, e)"]
    by (cases "rndLoop d rnd (h\<lparr>maxLength := m\<rparr>, e)") auto
  with 1 show ?thesis by simp
next
  case True
  define k where "k = (LEAST k. equals d (fst ((rndStep rnd ^^ k) (h, e))))"
  have 1: "equals d (fst ((rndStep rnd ^^ k) (h, e)))"
    unfolding k_def using True by (rule LeastI_ex)
  have 2: "\<forall>j<k. \<not> equals d (fst ((rndStep rnd ^^ j) (h, e)))"
    unfolding k_def by (auto dest: not_less_Least)
  have m1: "equals d (fst ((rndStep rnd ^^ k) (h\<lparr>maxLength := m\<rparr>, e)))"
    using 1 by (simp add: rndStep_funpow_maxLength equals_maxLength)
  have m2: "\<forall>j<k. \<not> equals d (fst ((rndStep rnd ^^ j) (h\<lparr>maxLength := m\<rparr>, e)))"
    using 2 by (simp add: rndStep_funpow_maxLength equals_maxLength)
  show ?thesis
    by (simp add: rndLoop_iterate [OF 1 2] rndLoop_iterate [OF m1 m2] rndStep_funpow_maxLength)
qed

lemma FindRandom_maxLength:
  "FindRandom d rnd (h\<lparr>maxLength := m\<rparr>, e)
     = map_option (\<lambda>(r, s, e'). (r, s\<lparr>maxLength := m\<rparr>, e')) (FindRandom d rnd (h, e))"
  by (auto simp: FindRandom_def verify_maxLength rndFill_maxLength rndInit_maxLength
      rndLoop_maxLength
      split: option.splits)




lemma algos_known:
  "algos a \<noteq> None \<longleftrightarrow>
     a \<in> {''md5'', ''sha1'', ''sha224'', ''sha256'', ''sha384'', ''sha512'', ''sha512-224'',
          ''sha512-256'', ''sha3-224'', ''sha3-256'', ''sha3-384'', ''sha3-512''}"
  by (simp add: algos_def)

lemma digestFor_known: "digestFor d a \<noteq> None \<longleftrightarrow> algos a \<noteq> None"
  unfolding algos_known by (simp add: digestFor_def)


lemma verify_digestFor: "verify h = None \<Longrightarrow> \<exists>f. digestFor d (algo h) = Some f"
  using digestFor_known [of d "algo h"]
  by (auto simp: verify_def Let_def split: if_splits option.splits)

lemma calcAlgos_covers: "algos a \<noteq> None \<Longrightarrow> calcAlgos a \<noteq> None \<and> a \<in> set checksummerNames"
  unfolding algos_known by (auto simp: calcAlgos_def checksummerNames_def)

section \<open>The configurations used as examples\<close>

lemma cfgMota_fields:
  "allowedKeys cfgMota = [0x61, 0x6d, 0x6f, 0x74]" "minLength cfgMota = 5"
  "algo cfgMota = ''sha1''" "expected cfgMota = replicate 20 0" "suffix cfgMota = []"
  "reverse cfgMota = False"
  by (simp_all add: cfgMota_def AllowedKeys_def Length_def NewHasher_def
      strToDistinctByteSlice_def)

lemma cfgNegative_fields:
  "allowedKeys cfgNegative = [0x61, 0x6d, 0x6f, 0x74]" "minLength cfgNegative = - 1"
  "algo cfgNegative = ''sha1''" "expected cfgNegative = replicate 20 0"
  by (simp_all add: cfgNegative_def MinLength_def cfgMota_fields)

lemma cfgNoKeys_fields:
  "allowedKeys cfgNoKeys = []" "minLength cfgNoKeys = 0" "algo cfgNoKeys = ''rot13''"
  by (simp_all add: cfgNoKeys_def Length_def NewHasher_def)

lemma cfgSuffix_fields:
  "allowedKeys cfgSuffix = [0x61, 0x6d, 0x6f, 0x74]" "minLength cfgSuffix = 2"
  "algo cfgSuffix = ''sha1''" "expected cfgSuffix = replicate 20 0"
  "suffix cfgSuffix = [0x2e, 0x6f]" "reverse cfgSuffix = False"
  by (simp_all add: cfgSuffix_def Length_def cfgMota_fields)

lemma cfgMotom_fields:
  "allowedKeys cfgMotom = [0x61, 0x6d, 0x6f, 0x74]" "minLength cfgMotom = 5"
  "algo cfgMotom = ''sha1''" "expected cfgMotom = padTo 20 [0x6d, 0x6f, 0x74, 0x6f, 0x6d]"
  "suffix cfgMotom = []" "reverse cfgMotom = False"
  by (simp_all add: cfgMotom_def cfgMota_fields)




lemma cfgWhirlpool_fields:
  "allowedKeys cfgWhirlpool = [0x61, 0x6d, 0x6f, 0x74]" "minLength cfgWhirlpool = 5"
  "algo cfgWhirlpool = ''whirlpool''" "expected cfgWhirlpool = replicate 64 0"
  by (simp_all add: cfgWhirlpool_def cfgMota_fields)

lemma cfgRot13_fields:
  "allowedKeys cfgRot13 = [0x61, 0x6d, 0x6f, 0x74]" "minLength cfgRot13 = 5"
  "algo cfgRot13 = ''rot13''"
  by (simp_all add: cfgRot13_def cfgMota_fields)

lemma verify_nonempty: "verify h = None \<Longrightarrow> allowedKeys h \<noteq> []"
  by (auto simp: verify_def split: if_splits)


section \<open>The byte comparison\<close>

text \<open>
  C8. \<^verbatim>\<open>byteArrayEquals\<close> returns true exactly when the two slices have the same length
  and the same byte at every index; for slices of different lengths it returns false. It
  never panics: the result is always \<open>Some\<close>.
\<close>

theorem byteArrayEquals_iff:
  "byteArrayEquals a b = Some (length a = length b \<and> (\<forall>i<length a. a ! i = b ! i))
   \<and> (length a \<noteq> length b \<longrightarrow> byteArrayEquals a b = Some False)"
proof -
  have "(a = b) = (length a = length b \<and> (\<forall>i<length a. a ! i = b ! i))"
    by (rule list_eq_iff_nth_eq)
  then show ?thesis
    by (auto simp: byteArrayEquals_eq)
qed

theorem byteArrayEquals_iff_witness:
  "byteArrayEquals [1, 2, 3] [1, 2, 3] = Some True
   \<and> byteArrayEquals [1, 2, 4] [1, 2, 3] = Some False
   \<and> byteArrayEquals [1, 2] [1, 2, 3] = Some False"
  using byteArrayEquals_iff [of "[1, 2, 3]" "[1, 2, 3]"]
    byteArrayEquals_iff [of "[1, 2, 4]" "[1, 2, 3]"]
    byteArrayEquals_iff [of "[1, 2]" "[1, 2, 3]"]
  by (simp add: All_less_Suc)

section \<open>Alphabet normalisation\<close>

text \<open>
  C6. \<^verbatim>\<open>strToDistinctByteSlice\<close>, which \<^verbatim>\<open>AllowedKeys\<close> stores as the alphabet, returns
  the distinct bytes of its input in strictly ascending order. It is idempotent, and two
  inputs with the same set of bytes (permutations of each other, or differing in
  repetitions only) give the same alphabet.
\<close>

theorem strToDistinctByteSlice_normal:
  "sorted (strToDistinctByteSlice s) \<and> distinct (strToDistinctByteSlice s)
   \<and> set (strToDistinctByteSlice s) = set s
   \<and> allowedKeys (AllowedKeys h s) = strToDistinctByteSlice s
   \<and> strToDistinctByteSlice (strToDistinctByteSlice s) = strToDistinctByteSlice s
   \<and> (set s = set t \<longrightarrow> strToDistinctByteSlice s = strToDistinctByteSlice t)
   \<and> (mset s = mset t \<longrightarrow> strToDistinctByteSlice s = strToDistinctByteSlice t)"
proof -
  have "mset s = mset t \<Longrightarrow> set s = set t"
    by (rule mset_eq_setD)
  then show ?thesis
    by (auto simp: strToDistinctByteSlice_canonical AllowedKeys_def)
qed

theorem strToDistinctByteSlice_normal_witness:
  "strToDistinctByteSlice [0x6d, 0x6f, 0x74, 0x61] = [0x61, 0x6d, 0x6f, 0x74]
   \<and> strToDistinctByteSlice [0x61, 0x6d, 0x6f, 0x74] = [0x61, 0x6d, 0x6f, 0x74]
   \<and> strToDistinctByteSlice [0x74, 0x6f, 0x6d, 0x61, 0x74, 0x6f] = [0x61, 0x6d, 0x6f, 0x74]
   \<and> strToDistinctByteSlice [0x74, 0x61, 0x6f, 0x6d] = [0x61, 0x6d, 0x6f, 0x74]"
proof -
  have v: "strToDistinctByteSlice [0x6d, 0x6f, 0x74, 0x61] = [0x61, 0x6d, 0x6f, 0x74]"
    by (simp add: strToDistinctByteSlice_def)
  have "set [0x74, 0x6f, 0x6d, 0x61, 0x74, 0x6f :: byte] = set [0x6d, 0x6f, 0x74, 0x61]"
    by auto
  moreover have "mset [0x74, 0x61, 0x6f, 0x6d :: byte] = mset [0x6d, 0x6f, 0x74, 0x61]"
    by (simp add: add_mset_commute)
  ultimately show ?thesis
    using v
      strToDistinctByteSlice_normal [of "[0x6d, 0x6f, 0x74, 0x61]" NewHasher "[0x6d, 0x6f, 0x74, 0x61]"]
      strToDistinctByteSlice_normal [of "[0x74, 0x6f, 0x6d, 0x61, 0x74, 0x6f]" NewHasher "[0x6d, 0x6f, 0x74, 0x61]"]
      strToDistinctByteSlice_normal [of "[0x74, 0x61, 0x6f, 0x6d]" NewHasher "[0x6d, 0x6f, 0x74, 0x61]"]
    by simp
qed

section \<open>Validation\<close>

lemma FindSequential_negative_panics:
  "FindSequential d cfgNegative = Some (Panicked, cfgNegative)"
  by (simp add: FindSequential_def verify_def cfgNegative_fields algos_def)

text \<open>
  C4 as stated fails twice. A negative \<open>minLength\<close> is not rejected: \<^verbatim>\<open>verify\<close> tests
  \<^verbatim>\<open>h.minLength == 0\<close>, and \<open>cfgNegative\<close> (length \<open>-1\<close>, otherwise valid) passes;
  \<^verbatim>\<open>FindSequential\<close> then panics in \<^verbatim>\<open>make\<close>. And the test of the alphabet comes first:
  \<open>cfgNoKeys\<close> has length \<open>0\<close> and gets "allowedKeys unset".
\<close>

theorem verify_minLength_counterexample:
  "minLength cfgNegative \<le> 0 \<and> verify cfgNegative = None
   \<and> minLength cfgNoKeys \<le> 0 \<and> verify cfgNoKeys = Some AllowedKeysUnset"
  by (simp add: verify_def cfgNegative_fields cfgNoKeys_fields algos_def)

text \<open>
  C4, amended. For every configuration with a non-empty alphabet and \<open>minLength = 0\<close>,
  \<^verbatim>\<open>verify\<close> fails with "minLength unset".
\<close>

theorem verify_minLength_unset:
  "allowedKeys h \<noteq> [] \<Longrightarrow> minLength h = 0 \<Longrightarrow> verify h = Some MinLengthUnset"
  by (simp add: verify_def)

theorem verify_minLength_unset_witness:
  "verify (MinLength cfgMota 0) = Some MinLengthUnset"
  using verify_minLength_unset [of "MinLength cfgMota 0"]
  by (simp add: MinLength_def cfgMota_fields)

text \<open>
  C5 as stated fails in both directions. The tests of the alphabet and of the length come
  before the look-up of the algorithm: \<open>cfgNoKeys\<close> names an algorithm that is in no
  table, and \<^verbatim>\<open>verify\<close> answers "allowedKeys unset". And \<^verbatim>\<open>verify\<close> looks the name up in
  the table \<open>algos\<close> of the hasher, not in the registry of \<^verbatim>\<open>calc.go\<close>: "whirlpool" is a
  key of both tables of the registry, and \<open>cfgWhirlpool\<close>, with a non-empty alphabet and
  length 5, gets "unknown algo whirlpool".
\<close>

theorem verify_unknown_algo_counterexample:
  "algo cfgNoKeys \<noteq> [] \<and> calcAlgos (algo cfgNoKeys) = None
   \<and> algo cfgNoKeys \<notin> set checksummerNames
   \<and> verify cfgNoKeys = Some AllowedKeysUnset
   \<and> algo cfgWhirlpool \<noteq> [] \<and> calcAlgos (algo cfgWhirlpool) = Some 512
   \<and> algo cfgWhirlpool \<in> set checksummerNames
   \<and> allowedKeys cfgWhirlpool \<noteq> [] \<and> minLength cfgWhirlpool = 5
   \<and> verify cfgWhirlpool = Some (UnknownAlgo ''whirlpool'')"
  by (simp add: verify_def cfgNoKeys_fields cfgWhirlpool_fields algos_def calcAlgos_def
      checksummerNames_def)

text \<open>
  C5, amended. For every configuration with a non-empty alphabet, a \<open>minLength\<close> other
  than \<open>0\<close> and a non-empty algorithm name, \<^verbatim>\<open>verify\<close> fails with "unknown algo <name>"
  if and only if the name is not one of md5, sha1, sha224, sha256, sha384, sha512,
  sha512-224, sha512-256, sha3-224, sha3-256, sha3-384 and sha3-512, the keys of the
  hasher's own table; so it fails with that error for every name that is not in the
  external registry (in its table of bit widths, or in its table of digest functions),
  and for the names of the registry other than these twelve.
\<close>

theorem verify_unknown_algo_iff:
  assumes "allowedKeys h \<noteq> []" and "minLength h \<noteq> 0" and "algo h \<noteq> []"
  shows "(verify h = Some (UnknownAlgo (algo h)))
           = (algo h \<notin> {''md5'', ''sha1'', ''sha224'', ''sha256'', ''sha384'', ''sha512'',
                ''sha512-224'', ''sha512-256'', ''sha3-224'', ''sha3-256'', ''sha3-384'',
                ''sha3-512''})
       \<and> (calcAlgos (algo h) = None \<longrightarrow> verify h = Some (UnknownAlgo (algo h)))
       \<and> (algo h \<notin> set checksummerNames \<longrightarrow> verify h = Some (UnknownAlgo (algo h)))"
proof -
  have v: "(verify h = Some (UnknownAlgo (algo h))) = (algos (algo h) = None)"
    using assms by (auto simp: verify_def Let_def split: option.splits)
  have 1: "(verify h = Some (UnknownAlgo (algo h)))
      = (algo h \<notin> {''md5'', ''sha1'', ''sha224'', ''sha256'', ''sha384'', ''sha512'',
           ''sha512-224'', ''sha512-256'', ''sha3-224'', ''sha3-256'', ''sha3-384'',
           ''sha3-512''})"
    unfolding v using algos_known [of "algo h"] by blast
  have 2: "verify h = Some (UnknownAlgo (algo h))" if "calcAlgos (algo h) = None"
    unfolding v using that calcAlgos_covers [of "algo h"] by blast
  have 3: "verify h = Some (UnknownAlgo (algo h))" if "algo h \<notin> set checksummerNames"
    unfolding v using that calcAlgos_covers [of "algo h"] by blast
  from 1 2 3 show ?thesis by blast
qed

theorem verify_unknown_algo_iff_witness:
  "verify cfgRot13 = Some (UnknownAlgo ''rot13'')
   \<and> verify cfgMota \<noteq> Some (UnknownAlgo ''sha1'')"
proof -
  have a: "allowedKeys cfgRot13 \<noteq> []" "minLength cfgRot13 \<noteq> 0" "algo cfgRot13 \<noteq> []"
    by (simp_all add: cfgRot13_fields)
  have b: "allowedKeys cfgMota \<noteq> []" "minLength cfgMota \<noteq> 0" "algo cfgMota \<noteq> []"
    by (simp_all add: cfgMota_fields)
  from verify_unknown_algo_iff [OF a] verify_unknown_algo_iff [OF b] show ?thesis
    by (simp add: cfgRot13_fields cfgMota_fields)
qed

section \<open>Random search and reverse\<close>

text \<open>
  C7. With \<open>reverse\<close> set, \<^verbatim>\<open>FindRandom\<close> returns the error "reverse and random dont
  mix" at once, whatever the rest of the configuration is: the hasher is returned as it
  was, and so are the counters of the calls of \<^verbatim>\<open>rand.Intn\<close> and of \<^verbatim>\<open>equals\<close>, the only
  place where a digest is computed.
\<close>

theorem FindRandom_reverse:
  "reverse (fst s) \<Longrightarrow> FindRandom d rnd s = Some (Returned [] (Some ReverseRandomMix), s)"
  by (simp add: FindRandom_def)

theorem FindRandom_reverse_witness:
  "verify (cfgNoKeys\<lparr>reverse := True\<rparr>) = Some AllowedKeysUnset
   \<and> FindRandom padDigests (\<lambda>t n. 0) (cfgNoKeys\<lparr>reverse := True\<rparr>, \<lparr>intnCalls = 0, equalsCalls = 0\<rparr>)
     = Some (Returned [] (Some ReverseRandomMix),
             cfgNoKeys\<lparr>reverse := True\<rparr>, \<lparr>intnCalls = 0, equalsCalls = 0\<rparr>)"
  using FindRandom_reverse [of "(cfgNoKeys\<lparr>reverse := True\<rparr>, \<lparr>intnCalls = 0, equalsCalls = 0\<rparr>)"
      padDigests "\<lambda>t n. 0"]
  by (simp add: verify_def cfgNoKeys_fields)

section \<open>The candidate buffer\<close>

text \<open>
  C3. Let \<^verbatim>\<open>verify\<close> pass and \<open>minLength\<close> be non-negative, so that the buffer gets
  initialised. At the head of the search loop of \<^verbatim>\<open>FindSequential\<close> after any number
  \<open>i\<close> of rounds, the buffer has length \<open>minLength + len(suffix)\<close>, its bytes from
  position \<open>minLength\<close> on are the configured suffix, and each of its first \<open>minLength\<close>
  bytes is in the configured alphabet; suffix, alphabet and \<open>minLength\<close> are the
  configured ones. The same holds in \<^verbatim>\<open>FindRandom\<close>, for every random source that keeps
  the contract of \<^verbatim>\<open>rand.Intn\<close> (\<open>0 \<le> Intn(l) < l\<close> for \<open>l > 0\<close>).
\<close>

theorem candidate_buffer_invariant:
  assumes "verify h = None" and "0 \<le> minLength h"
  shows "int (length (buffer (seqState h i))) = minLength h + int (length (suffix h))
       \<and> drop (nat (minLength h)) (buffer (seqState h i)) = suffix h
       \<and> set (take (nat (minLength h)) (buffer (seqState h i))) \<subseteq> set (allowedKeys h)
       \<and> suffix (seqState h i) = suffix h \<and> allowedKeys (seqState h i) = allowedKeys h
       \<and> minLength (seqState h i) = minLength h
       \<and> ((\<forall>t l. 0 < l \<longrightarrow> rnd t l < l) \<longrightarrow>
            int (length (buffer (fst (rndState rnd (h, e) i)))) = minLength h + int (length (suffix h))
          \<and> drop (nat (minLength h)) (buffer (fst (rndState rnd (h, e) i))) = suffix h
          \<and> set (take (nat (minLength h)) (buffer (fst (rndState rnd (h, e) i)))) \<subseteq> set (allowedKeys h)
          \<and> suffix (fst (rndState rnd (h, e) i)) = suffix h
          \<and> allowedKeys (fst (rndState rnd (h, e) i)) = allowedKeys h
          \<and> minLength (fst (rndState rnd (h, e) i)) = minLength h)"
proof -
  from assms(1) have ne: "allowedKeys h \<noteq> []" by (rule verify_nonempty)
  from seqState_shape [OF ne, of i]
  have s1: "seqState h i = h\<lparr>buffer := buffer (seqState h i), tries := tries h + of_nat i\<rparr>"
    and s2: "length (buffer (seqState h i)) = nat (minLength h) + length (suffix h)"
    and s3: "drop (nat (minLength h)) (buffer (seqState h i)) = suffix h"
    and s4: "\<forall>j<nat (minLength h). buffer (seqState h i) ! j \<in> set (allowedKeys h)"
    by blast+
  have seq: "int (length (buffer (seqState h i))) = minLength h + int (length (suffix h))
       \<and> drop (nat (minLength h)) (buffer (seqState h i)) = suffix h
       \<and> set (take (nat (minLength h)) (buffer (seqState h i))) \<subseteq> set (allowedKeys h)
       \<and> suffix (seqState h i) = suffix h \<and> allowedKeys (seqState h i) = allowedKeys h
       \<and> minLength (seqState h i) = minLength h"
    using s2 s3 s4 config_fields [OF s1] assms(2) by (simp add: prefix_set)
  have rnd: "int (length (buffer (fst (rndState rnd (h, e) i)))) = minLength h + int (length (suffix h))
          \<and> drop (nat (minLength h)) (buffer (fst (rndState rnd (h, e) i))) = suffix h
          \<and> set (take (nat (minLength h)) (buffer (fst (rndState rnd (h, e) i)))) \<subseteq> set (allowedKeys h)
          \<and> suffix (fst (rndState rnd (h, e) i)) = suffix h
          \<and> allowedKeys (fst (rndState rnd (h, e) i)) = allowedKeys h
          \<and> minLength (fst (rndState rnd (h, e) i)) = minLength h"
    if c: "\<forall>t l. 0 < l \<longrightarrow> rnd t l < l"
  proof -
    from rndState_shape [OF ne c, of e i]
    have r1: "fst (rndState rnd (h, e) i)
           = h\<lparr>buffer := buffer (fst (rndState rnd (h, e) i)), tries := tries h + of_nat i\<rparr>"
      and r2: "length (buffer (fst (rndState rnd (h, e) i))) = nat (minLength h) + length (suffix h)"
      and r3: "drop (nat (minLength h)) (buffer (fst (rndState rnd (h, e) i))) = suffix h"
      and r4: "\<forall>j<nat (minLength h). buffer (fst (rndState rnd (h, e) i)) ! j \<in> set (allowedKeys h)"
      by blast+
    show ?thesis
      using r2 r3 r4 config_fields [OF r1] assms(2) by (simp add: prefix_set)
  qed
  from seq rnd show ?thesis by blast
qed

theorem candidate_buffer_invariant_witness:
  "verify cfgSuffix = None
   \<and> length (buffer (seqState cfgSuffix 3)) = 4
   \<and> drop 2 (buffer (seqState cfgSuffix 3)) = [0x2e, 0x6f]
   \<and> set (take 2 (buffer (seqState cfgSuffix 3))) \<subseteq> {0x61, 0x6d, 0x6f, 0x74}
   \<and> length (buffer (fst (rndState (\<lambda>t l. t mod l) (cfgSuffix, \<lparr>intnCalls = 0, equalsCalls = 0\<rparr>) 3))) = 4
   \<and> drop 2 (buffer (fst (rndState (\<lambda>t l. t mod l) (cfgSuffix, \<lparr>intnCalls = 0, equalsCalls = 0\<rparr>) 3)))
       = [0x2e, 0x6f]
   \<and> set (take 2 (buffer (fst (rndState (\<lambda>t l. t mod l) (cfgSuffix, \<lparr>intnCalls = 0, equalsCalls = 0\<rparr>) 3))))
       \<subseteq> {0x61, 0x6d, 0x6f, 0x74}"
proof -
  have v: "verify cfgSuffix = None"
    by (simp add: verify_def cfgSuffix_fields algos_def)
  have m: "0 \<le> minLength cfgSuffix" by (simp add: cfgSuffix_fields)
  have c: "\<forall>t l. 0 < l \<longrightarrow> t mod l < (l::nat)" by simp
  show ?thesis
    using v c candidate_buffer_invariant [OF v m, of 3 "\<lambda>t l. t mod l" "\<lparr>intnCalls = 0, equalsCalls = 0\<rparr>"]
    by (simp add: cfgSuffix_fields)
qed

section \<open>Successor and predecessor\<close>

text \<open>
  C10. Let the alphabet be sorted and without repetitions. For an alphabet byte that is
  not the last one, \<^verbatim>\<open>nextValueFor\<close> returns, from inside its loop, the byte at the next
  position of the alphabet, which is the least alphabet byte above it; for an alphabet
  byte that is not the first one, \<^verbatim>\<open>prevValueFor\<close> returns, from inside its loop, the
  byte at the position before, the greatest alphabet byte below it. And in every state at
  the head of the search loop of \<^verbatim>\<open>FindSequential\<close>, the roller loop makes no call that
  leaves through the fallback return after the loop.
\<close>

theorem nextValueFor_prevValueFor_in_loop:
  assumes "sorted (allowedKeys h)" and "distinct (allowedKeys h)"
  shows "(\<forall>i. Suc i < length (allowedKeys h) \<longrightarrow>
            nextValueFor_range False (allowedKeys h ! i) (allowedKeys h)
              = InLoop (allowedKeys h ! Suc i)
          \<and> nextValueFor h (allowedKeys h ! i) = allowedKeys h ! Suc i
          \<and> allowedKeys h ! i < allowedKeys h ! Suc i
          \<and> (\<forall>y\<in>set (allowedKeys h). allowedKeys h ! i < y \<longrightarrow> allowedKeys h ! Suc i \<le> y))
       \<and> (\<forall>i. 0 < i \<and> i < length (allowedKeys h) \<longrightarrow>
            prevValueFor_range (allowedKeys h ! 0) (allowedKeys h ! i) (allowedKeys h)
              = InLoop (allowedKeys h ! (i - 1))
          \<and> prevValueFor h (allowedKeys h ! i) = allowedKeys h ! (i - 1)
          \<and> allowedKeys h ! (i - 1) < allowedKeys h ! i
          \<and> (\<forall>y\<in>set (allowedKeys h). y < allowedKeys h ! i \<longrightarrow> y \<le> allowedKeys h ! (i - 1)))
       \<and> (verify h = None \<and> 0 \<le> minLength h \<longrightarrow>
            (\<forall>i. \<not> rollerFallback (allowedKeys h ! 0)
                    (allowedKeys h ! (length (allowedKeys h) - 1)) (seqState h i)
                    (nat (minLength h))))"
proof (intro conjI allI impI ballI)
  fix i assume i: "Suc i < length (allowedKeys h)"
  from assms(2) i
  show n: "nextValueFor_range False (allowedKeys h ! i) (allowedKeys h) = InLoop (allowedKeys h ! Suc i)"
    by (rule nextValueFor_range_nth)
  then show "nextValueFor h (allowedKeys h ! i) = allowedKeys h ! Suc i"
    by (simp add: nextValueFor_def)
  from assms i show "allowedKeys h ! i < allowedKeys h ! Suc i"
    by (simp add: sorted_distinct_nth_less)
  fix y assume "y \<in> set (allowedKeys h)" "allowedKeys h ! i < y"
  with assms i show "allowedKeys h ! Suc i \<le> y"
    by (simp add: sorted_distinct_next_least)
next
  fix i assume i: "0 < i \<and> i < length (allowedKeys h)"
  with assms(2)
  show p: "prevValueFor_range (allowedKeys h ! 0) (allowedKeys h ! i) (allowedKeys h)
      = InLoop (allowedKeys h ! (i - 1))"
    by (simp add: prevValueFor_range_nth)
  then show "prevValueFor h (allowedKeys h ! i) = allowedKeys h ! (i - 1)"
    by (simp add: prevValueFor_def)
  from assms i show "allowedKeys h ! (i - 1) < allowedKeys h ! i"
    by (simp add: sorted_distinct_nth_less)
  fix y assume "y \<in> set (allowedKeys h)" "y < allowedKeys h ! i"
  with assms i show "y \<le> allowedKeys h ! (i - 1)"
    using sorted_distinct_prev_greatest [of "allowedKeys h" i y] by simp
next
  fix i assume v: "verify h = None \<and> 0 \<le> minLength h"
  then have ne: "allowedKeys h \<noteq> []" by (simp add: verify_nonempty)
  define s where "s = seqState h i"
  from seqState_shape [OF ne, of i]
  have s1: "s = h\<lparr>buffer := buffer s, tries := tries h + of_nat i\<rparr>"
    and s2: "length (buffer s) = nat (minLength h) + length (suffix h)"
    and s4: "\<forall>j<nat (minLength h). buffer s ! j \<in> set (allowedKeys h)"
    unfolding s_def by blast+
  from config_fields [OF s1] have cf: "allowedKeys s = allowedKeys h" by simp
  have "\<not> rollerFallback (allowedKeys h ! 0) (last (allowedKeys h)) s (nat (minLength h))"
    using rollerFallback_never [of s "nat (minLength h)"] ne s2 s4 by (simp add: cf)
  then show "\<not> rollerFallback (allowedKeys h ! 0)
      (allowedKeys h ! (length (allowedKeys h) - 1)) (seqState h i) (nat (minLength h))"
    using ne by (simp add: s_def last_conv_nth)
qed

theorem nextValueFor_prevValueFor_in_loop_witness:
  "nextValueFor cfgMota 0x6d = 0x6f \<and> prevValueFor cfgMota 0x6f = 0x6d
   \<and> \<not> rollerFallback 0x61 0x74 (seqState cfgMota 7) 5"
proof -
  have s: "sorted (allowedKeys cfgMota)" "distinct (allowedKeys cfgMota)"
    by (simp_all add: cfgMota_fields)
  have v: "verify cfgMota = None"
    by (simp add: verify_def cfgMota_fields algos_def)
  from nextValueFor_prevValueFor_in_loop [OF s]
  have a: "\<forall>i. Suc i < length (allowedKeys cfgMota) \<longrightarrow>
           nextValueFor cfgMota (allowedKeys cfgMota ! i) = allowedKeys cfgMota ! Suc i"
    and b: "\<forall>i. 0 < i \<and> i < length (allowedKeys cfgMota) \<longrightarrow>
           prevValueFor cfgMota (allowedKeys cfgMota ! i) = allowedKeys cfgMota ! (i - 1)"
    and c: "verify cfgMota = None \<and> 0 \<le> minLength cfgMota \<longrightarrow>
            (\<forall>i. \<not> rollerFallback (allowedKeys cfgMota ! 0)
                    (allowedKeys cfgMota ! (length (allowedKeys cfgMota) - 1)) (seqState cfgMota i)
                    (nat (minLength cfgMota)))"
    by blast+
  from a [rule_format, of 1] b [rule_format, of 2] c v show ?thesis
    by (simp add: cfgMota_fields)
qed

section \<open>The order of the sequential enumeration\<close>

text \<open>
  C1. Let the alphabet be non-empty, sorted and without repetitions, \<open>k\<close> its length, and
  \<open>n = minLength \<ge> 1\<close>. The prefixes that \<^verbatim>\<open>FindSequential\<close> tests, one for each round
  of its loop, start with \<open>n\<close> times the first byte of the alphabet (with \<open>reverse\<close>:
  the last byte); each is a word of length \<open>n\<close> over the alphabet; each such word is the
  prefix of exactly one of the first \<open>k ^ n\<close> rounds; over these rounds the prefixes
  strictly ascend in the lexicographic order of the byte values (with \<open>reverse\<close>: strictly
  descend); and after \<open>k ^ n\<close> rounds the sequence starts again.
\<close>

theorem sequential_enumeration_order:
  assumes "allowedKeys h \<noteq> []" and "sorted (allowedKeys h)" and "distinct (allowedKeys h)"
    and "1 \<le> minLength h"
  shows "seqPrefix h 0 = replicate (nat (minLength h))
           (if reverse h then last (allowedKeys h) else allowedKeys h ! 0)
       \<and> (\<forall>i. length (seqPrefix h i) = nat (minLength h)
              \<and> set (seqPrefix h i) \<subseteq> set (allowedKeys h))
       \<and> (\<forall>xs. length xs = nat (minLength h) \<and> set xs \<subseteq> set (allowedKeys h) \<longrightarrow>
              (\<exists>!i. i < length (allowedKeys h) ^ nat (minLength h) \<and> seqPrefix h i = xs))
       \<and> (\<forall>i j. i < j \<and> j < length (allowedKeys h) ^ nat (minLength h) \<longrightarrow>
              (if reverse h then seqPrefix h j < seqPrefix h i
               else seqPrefix h i < seqPrefix h j))
       \<and> (\<forall>i. seqPrefix h (i + length (allowedKeys h) ^ nat (minLength h)) = seqPrefix h i)"
proof (intro conjI allI impI)
  let ?A = "allowedKeys h"
  let ?n = "nat (minLength h)"
  let ?K = "length ?A ^ ?n"
  note ne = assms(1) and d = assms(3)
  have K: "0 < ?K" using ne by simp
  show "seqPrefix h 0 = replicate ?n (if reverse h then last ?A else ?A ! 0)"
    using ne by (rule seqPrefix_0)
  show "length (seqPrefix h i) = ?n" for i
    using ne by (rule seqPrefix_shape)
  show "set (seqPrefix h i) \<subseteq> set ?A" for i
    using ne by (rule seqPrefix_shape)
  show "seqPrefix h (i + ?K) = seqPrefix h i" for i
    by (simp add: seqPrefix_eq_iff [OF d ne])
  show "if reverse h then seqPrefix h j < seqPrefix h i else seqPrefix h i < seqPrefix h j"
    if "i < j \<and> j < ?K" for i j
  proof -
    from that have m: "i mod ?K = i" "j mod ?K = j" and ij: "i < ?K" "j < ?K" by simp_all
    have lex: "seqPrefix h a < seqPrefix h b \<longleftrightarrow> rank ?A (seqPrefix h a) < rank ?A (seqPrefix h b)"
      for a b
      using rank_lex [OF assms(2) d, of "seqPrefix h a" "seqPrefix h b"] seqPrefix_shape [OF ne]
      by simp
    show ?thesis
      using that down_less [OF ij(2,1)] by (simp add: lex seqPrefix_rank [OF d ne] m)
  qed
  show "\<exists>!i. i < ?K \<and> seqPrefix h i = xs"
    if xs: "length xs = ?n \<and> set xs \<subseteq> set ?A" for xs
  proof -
    from xs seqPrefix_visits [OF d ne, of xs]
    obtain i where i: "i < ?K" and "seqPrefix h i = xs" by blast
    then have "seqPrefix h i = xs" by simp
    moreover have "j = i" if "j < ?K" "seqPrefix h j = xs" for j
    proof -
      from that \<open>seqPrefix h i = xs\<close> have "seqPrefix h j = seqPrefix h i" by simp
      then have "j mod ?K = i mod ?K" by (simp add: seqPrefix_eq_iff [OF d ne])
      with that(1) i show ?thesis by simp
    qed
    ultimately show ?thesis using i by blast
  qed
qed

theorem sequential_enumeration_order_witness:
  "seqPrefix cfgSuffix 0 = [0x61, 0x61]
   \<and> seqPrefix cfgSuffix 1 < seqPrefix cfgSuffix 2
   \<and> seqPrefix cfgSuffix (0 + 16) = seqPrefix cfgSuffix 0
   \<and> seqPrefix (cfgSuffix\<lparr>reverse := True\<rparr>) 0 = [0x74, 0x74]
   \<and> seqPrefix (cfgSuffix\<lparr>reverse := True\<rparr>) 2 < seqPrefix (cfgSuffix\<lparr>reverse := True\<rparr>) 1"
proof -
  have a: "allowedKeys cfgSuffix \<noteq> []" "sorted (allowedKeys cfgSuffix)"
    "distinct (allowedKeys cfgSuffix)" "1 \<le> minLength cfgSuffix"
    by (simp_all add: cfgSuffix_fields)
  have b: "allowedKeys (cfgSuffix\<lparr>reverse := True\<rparr>) \<noteq> []"
    "sorted (allowedKeys (cfgSuffix\<lparr>reverse := True\<rparr>))"
    "distinct (allowedKeys (cfgSuffix\<lparr>reverse := True\<rparr>))"
    "1 \<le> minLength (cfgSuffix\<lparr>reverse := True\<rparr>)"
    by (simp_all add: cfgSuffix_fields)
  have K: "length (allowedKeys cfgSuffix) ^ nat (minLength cfgSuffix) = 16"
    "length (allowedKeys (cfgSuffix\<lparr>reverse := True\<rparr>))
       ^ nat (minLength (cfgSuffix\<lparr>reverse := True\<rparr>)) = 16"
    by (simp_all add: cfgSuffix_fields power2_eq_square)
  note up = sequential_enumeration_order [OF a, unfolded K]
  note down = sequential_enumeration_order [OF b, unfolded K]
  from up have u1: "seqPrefix cfgSuffix 0 = [0x61, 0x61]"
    by (simp add: cfgSuffix_fields numeral_2_eq_2)
  from up have "1 < (2::nat) \<and> (2::nat) < 16 \<longrightarrow> seqPrefix cfgSuffix 1 < seqPrefix cfgSuffix 2"
    by (simp add: cfgSuffix_fields)
  then have u2: "seqPrefix cfgSuffix 1 < seqPrefix cfgSuffix 2"
    by simp
  from up have u3: "seqPrefix cfgSuffix (0 + 16) = seqPrefix cfgSuffix 0"
    by blast
  from down have d1: "seqPrefix (cfgSuffix\<lparr>reverse := True\<rparr>) 0 = [0x74, 0x74]"
    by (simp add: cfgSuffix_fields numeral_2_eq_2)
  from down have "1 < (2::nat) \<and> (2::nat) < 16
      \<longrightarrow> seqPrefix (cfgSuffix\<lparr>reverse := True\<rparr>) 2 < seqPrefix (cfgSuffix\<lparr>reverse := True\<rparr>) 1"
    by (simp add: cfgSuffix_fields)
  then have d2: "seqPrefix (cfgSuffix\<lparr>reverse := True\<rparr>) 2 < seqPrefix (cfgSuffix\<lparr>reverse := True\<rparr>) 1"
    by simp
  from u1 u2 u3 d1 d2 show ?thesis by blast
qed

section \<open>The result of the sequential search\<close>




section \<open>The field maxLength\<close>

text \<open>
  C9. Two configurations that differ in \<open>maxLength\<close> only behave alike: \<^verbatim>\<open>FindSequential\<close>
  returns the same result (or returns for neither), in states that differ in \<open>maxLength\<close>
  only, after testing the same candidates round by round; and so does \<^verbatim>\<open>FindRandom\<close> on
  the same random source. The length of the candidates is \<open>minLength\<close> plus that of the
  suffix, whatever \<open>maxLength\<close> is.
\<close>

theorem maxLength_no_effect:
  "FindSequential d (MaxLength h m)
     = map_option (\<lambda>(r, s). (r, MaxLength s m)) (FindSequential d h)
   \<and> map_option fst (FindSequential d (MaxLength h m)) = map_option fst (FindSequential d h)
   \<and> (\<forall>i. seqState (MaxLength h m) i = MaxLength (seqState h i) m)
   \<and> (\<forall>i. buffer (seqState (MaxLength h m) i) = buffer (seqState h i))
   \<and> FindRandom d rnd (MaxLength h m, e)
       = map_option (\<lambda>(r, s, e'). (r, MaxLength s m, e')) (FindRandom d rnd (h, e))
   \<and> map_option fst (FindRandom d rnd (MaxLength h m, e)) = map_option fst (FindRandom d rnd (h, e))
   \<and> (\<forall>i. rndState rnd (MaxLength h m, e) i = apfst (\<lambda>s. MaxLength s m) (rndState rnd (h, e) i))
   \<and> (\<forall>i. buffer (fst (rndState rnd (MaxLength h m, e) i)) = buffer (fst (rndState rnd (h, e) i)))
   \<and> (verify h = None \<longrightarrow>
        (\<forall>i. length (buffer (seqState (MaxLength h m) i)) = nat (minLength h) + length (suffix h)))"
proof -
  have 1: "FindSequential d (MaxLength h m)
      = map_option (\<lambda>(r, s). (r, MaxLength s m)) (FindSequential d h)"
    by (simp add: MaxLength_def FindSequential_maxLength)
  have 2: "seqState (MaxLength h m) i = MaxLength (seqState h i) m" for i
    by (simp add: MaxLength_def seqState_maxLength)
  have 3: "FindRandom d rnd (MaxLength h m, e)
      = map_option (\<lambda>(r, s, e'). (r, MaxLength s m, e')) (FindRandom d rnd (h, e))"
    by (simp add: MaxLength_def FindRandom_maxLength)
  have 4: "rndState rnd (MaxLength h m, e) i = apfst (\<lambda>s. MaxLength s m) (rndState rnd (h, e) i)" for i
    by (simp add: MaxLength_def rndState_maxLength)
  have 6: "map_option fst (FindSequential d (MaxLength h m)) = map_option fst (FindSequential d h)"
    unfolding 1 by (cases "FindSequential d h") auto
  have 7: "map_option fst (FindRandom d rnd (MaxLength h m, e)) = map_option fst (FindRandom d rnd (h, e))"
    unfolding 3 by (cases "FindRandom d rnd (h, e)") auto
  have 8: "buffer (seqState (MaxLength h m) i) = buffer (seqState h i)" for i
    by (simp add: MaxLength_def seqState_maxLength)
  have 5: "length (buffer (seqState (MaxLength h m) i)) = nat (minLength h) + length (suffix h)"
    if "verify h = None" for i
    unfolding 8 using seqState_shape [OF verify_nonempty [OF that], of i] by simp
  have 9: "buffer (fst (rndState rnd (MaxLength h m, e) i)) = buffer (fst (rndState rnd (h, e) i))" for i
    by (simp add: MaxLength_def rndState_maxLength)
  from 1 2 3 4 5 6 7 8 9 show ?thesis by blast
qed

theorem maxLength_no_effect_witness:
  "verify cfgMotom = None
   \<and> map_option fst (FindSequential padDigests (MaxLength cfgMotom 99))
       = map_option fst (FindSequential padDigests cfgMotom)
   \<and> buffer (seqState (MaxLength cfgMotom 99) 3) = buffer (seqState cfgMotom 3)
   \<and> length (buffer (seqState (MaxLength cfgMotom 99) 3)) = 5
   \<and> buffer (fst (rndState (\<lambda>t l. t mod l) (MaxLength cfgMotom 99, \<lparr>intnCalls = 0, equalsCalls = 0\<rparr>) 3))
       = buffer (fst (rndState (\<lambda>t l. t mod l) (cfgMotom, \<lparr>intnCalls = 0, equalsCalls = 0\<rparr>) 3))"
proof -
  have v: "verify cfgMotom = None"
    by (simp add: verify_def cfgMotom_fields algos_def padTo_def)
  note M = maxLength_no_effect [of padDigests cfgMotom 99 "\<lambda>t l. t mod l"
      "\<lparr>intnCalls = 0, equalsCalls = 0\<rparr>"]
  from M have a: "map_option fst (FindSequential padDigests (MaxLength cfgMotom 99))
       = map_option fst (FindSequential padDigests cfgMotom)"
    by blast
  from M have b: "buffer (seqState (MaxLength cfgMotom 99) 3) = buffer (seqState cfgMotom 3)"
    by blast
  from M v have "length (buffer (seqState (MaxLength cfgMotom 99) 3))
      = nat (minLength cfgMotom) + length (suffix cfgMotom)"
    by blast
  then have c: "length (buffer (seqState (MaxLength cfgMotom 99) 3)) = 5"
    by (simp add: cfgMotom_fields)
  from M have e: "buffer (fst (rndState (\<lambda>t l. t mod l)
        (MaxLength cfgMotom 99, \<lparr>intnCalls = 0, equalsCalls = 0\<rparr>) 3))
       = buffer (fst (rndState (\<lambda>t l. t mod l) (cfgMotom, \<lparr>intnCalls = 0, equalsCalls = 0\<rparr>) 3))"
    by blast
  from v a b c e show ?thesis by blast
qed

end
